theory Spec2Isabelle
  imports Complex_Main "HOL-Library.Word" "HOL-Library.Product_Lexorder"
begin

section \<open>Data model of NNC.cpp\<close>

text \<open>
  \<open>std::size_t\<close> is a 64-bit unsigned integer and the C++ \<open>int\<close> of a deck item a
  32-bit signed one. Subtraction on \<open>size_t\<close> wraps around, and the conversion
  \<open>static_cast<size_t>\<close> of an \<open>int\<close> extends the sign. A \<open>double\<close> is modelled as a
  \<open>real\<close>: the code only multiplies transmissibilities and compares a multiplier with
  \<open>1.0\<close>.
\<close>

type_synonym size_t = "64 word"
type_synonym cint = "32 word"

record KeywordLocation =
  keyword :: string
  filename :: string
  lineno :: nat

text \<open>
  \<open>NNCdata\<close> (declared in NNC.hpp): the two cells of a connection and its value. The
  field \<open>trans\<close> of the source is \<open>trans_v\<close> here.
\<close>

record NNCdata =
  cell1 :: size_t
  cell2 :: size_t
  trans_v :: real

text \<open>
  A deck record of the keywords NNC, EDITNNC and EDITNNCR has seven items: six integers
  (two I,J,K triples, 1-based) and one double. \<open>item_int r n\<close> is
  \<open>record.getItem(n).get<int>(0)\<close>, \<open>item_double r\<close> is
  \<open>record.getItem(6).get<double>(0)\<close> and \<open>item_SIDouble r\<close> is
  \<open>record.getItem(6).getSIDouble(0)\<close>.
\<close>

record DeckRecord =
  item_int :: "nat \<Rightarrow> cint"
  item_double :: real
  item_SIDouble :: real

record DeckKeyword =
  location :: KeywordLocation
  records :: "DeckRecord list"

text \<open>
  Of the deck the code reads three keyword lists:
  \<open>deck.getKeywordList<ParserKeywords::NNC>()\<close>, and the same for EDITNNC and EDITNNCR.
\<close>

record Deck =
  NNC_keywords :: "DeckKeyword list"
  EDITNNC_keywords :: "DeckKeyword list"
  EDITNNCR_keywords :: "DeckKeyword list"

text \<open>
  Modelled from the spec: \<open>EclipseGrid\<close> is declared in EclipseGrid.hpp, which is not
  part of the sources at hand. Section 6 of the spec lists what the code consumes: the
  three extents, the active-cell test and the map from coordinates to the global index.
  They are the fields of the grid.
\<close>

record EclipseGrid =
  getNX :: size_t
  getNY :: size_t
  getNZ :: size_t
  cellActive :: "size_t \<Rightarrow> size_t \<Rightarrow> size_t \<Rightarrow> bool"
  getGlobalIndex :: "size_t \<Rightarrow> size_t \<Rightarrow> size_t \<Rightarrow> size_t"

text \<open>The members of class \<open>NNC\<close>.\<close>

record NNC =
  m_input :: "NNCdata list"
  m_edit :: "NNCdata list"
  m_editr :: "NNCdata list"
  m_nnc_location :: "KeywordLocation option"
  m_edit_location :: "KeywordLocation option"
  m_editr_location :: "KeywordLocation option"

definition NNC_default :: NNC where
  "NNC_default = \<lparr>m_input = [], m_edit = [], m_editr = [],
     m_nnc_location = None, m_edit_location = None, m_editr_location = None\<rparr>"

section \<open>Ordering of entries and the standard algorithms\<close>

definition nnc_key :: "NNCdata \<Rightarrow> size_t \<times> size_t" where
  "nnc_key d = (cell1 d, cell2 d)"

text \<open>
  Modelled from the spec: \<open>NNCdata::operator<\<close> is declared in NNC.hpp, which is not
  part of the sources at hand. Sections 4.5 and 4.6 of the spec (stable sort by key,
  set-difference by key, binary search on key) and the comments of \<open>NNC::load_editr\<close>
  (after the stable sort the entries of a cell pair are consecutive and keep their
  insertion order) fix it: the comparison is lexicographic on the cell pair and does
  not look at the value.
\<close>

definition nnc_less :: "NNCdata \<Rightarrow> NNCdata \<Rightarrow> bool" where
  "nnc_less a b = (nnc_key a < nnc_key b)"

text \<open>
  \<open>std::sort\<close> and \<open>std::stable_sort\<close> with \<open>operator<\<close>. The order in which
  \<open>std::sort\<close> leaves equivalent entries is not specified; the stable insertion sort
  is one admissible outcome.
\<close>

definition std_sort :: "NNCdata list \<Rightarrow> NNCdata list" where
  "std_sort xs = sort_key nnc_key xs"

definition std_stable_sort :: "NNCdata list \<Rightarrow> NNCdata list" where
  "std_stable_sort xs = sort_key nnc_key xs"

text \<open>
  \<open>std::lower_bound\<close>, as an index: the first position whose entry is not less than
  the value (the end of the list when there is none). This is what the binary search
  returns on a list that the comparison with the value partitions, as a list sorted by
  key is.
\<close>

definition lower_bound :: "NNCdata list \<Rightarrow> NNCdata \<Rightarrow> nat" where
  "lower_bound xs v = length (takeWhile (\<lambda>e. nnc_less e v) xs)"

text \<open>
  \<open>std::unique\<close> with a predicate, followed by the \<open>erase\<close> of the tail: of each run
  of consecutive equal entries the first one is kept.
\<close>

fun std_unique :: "('a \<Rightarrow> 'a \<Rightarrow> bool) \<Rightarrow> 'a list \<Rightarrow> 'a list" where
  "std_unique eq [] = []"
| "std_unique eq [x] = [x]"
| "std_unique eq (x # y # ys) =
     (if eq x y then std_unique eq (x # ys) else x # std_unique eq (y # ys))"

text \<open>\<open>std::set_difference\<close> with \<open>operator<\<close>, writing to a back inserter.\<close>

fun set_difference :: "NNCdata list \<Rightarrow> NNCdata list \<Rightarrow> NNCdata list" where
  "set_difference [] ys = []"
| "set_difference (x # xs) [] = x # xs"
| "set_difference (x # xs) (y # ys) =
     (if nnc_less x y then x # set_difference xs (y # ys)
      else if \<not> nnc_less y x then set_difference xs ys
      else set_difference (x # xs) ys)"

section \<open>Index resolver and adjacency classifier\<close>

definition global_index :: "EclipseGrid \<Rightarrow> DeckRecord \<Rightarrow> nat \<Rightarrow> size_t option" where
  "global_index grid rec item_offset =
     (let i = (scast (item_int rec (0 + item_offset) - 1) :: size_t);
          j = (scast (item_int rec (1 + item_offset) - 1) :: size_t);
          k = (scast (item_int rec (2 + item_offset) - 1) :: size_t)
      in if i \<ge> getNX grid then None
         else if j \<ge> getNY grid then None
         else if k \<ge> getNZ grid then None
         else if \<not> cellActive grid i j k then None
         else Some (getGlobalIndex grid i j k))"

definition make_index_pair :: "EclipseGrid \<Rightarrow> DeckRecord \<Rightarrow> (size_t \<times> size_t) option" where
  "make_index_pair grid rec =
     (case global_index grid rec 0 of
        None \<Rightarrow> None
      | Some g1 \<Rightarrow>
          (case global_index grid rec 3 of
             None \<Rightarrow> None
           | Some g2 \<Rightarrow> if g1 < g2 then Some (g1, g2) else Some (g2, g1)))"

definition is_neighbor :: "EclipseGrid \<Rightarrow> size_t \<Rightarrow> size_t \<Rightarrow> bool" where
  "is_neighbor grid g1 g2 =
     (let diff = g2 - g1
      in if diff = 0 then True
         else if diff = 1 then True
         else if diff = getNX grid then True
         else if diff = getNY grid then True
         else False)"

section \<open>The loaders\<close>

subsection \<open>load_input\<close>

definition load_input_record :: "EclipseGrid \<Rightarrow> DeckRecord \<Rightarrow> NNC \<Rightarrow> NNC" where
  "load_input_record grid rec s =
     (case make_index_pair grid rec of
        None \<Rightarrow> s
      | Some (g1, g2) \<Rightarrow>
          s\<lparr>m_input := m_input s @ [\<lparr>cell1 = g1, cell2 = g2, trans_v = item_SIDouble rec\<rparr>]\<rparr>)"

definition load_input_keyword :: "EclipseGrid \<Rightarrow> DeckKeyword \<Rightarrow> NNC \<Rightarrow> NNC" where
  "load_input_keyword grid kw s =
     (let s1 = fold (load_input_record grid) (records kw) s
      in if m_nnc_location s1 = None then s1\<lparr>m_nnc_location := Some (location kw)\<rparr> else s1)"

definition load_input :: "EclipseGrid \<Rightarrow> Deck \<Rightarrow> NNC \<Rightarrow> NNC" where
  "load_input grid deck s =
     (let s1 = fold (load_input_keyword grid) (NNC_keywords deck) s
      in s1\<lparr>m_input := std_sort (m_input s1)\<rparr>)"

subsection \<open>load_edit\<close>

definition add_edit :: "NNCdata \<Rightarrow> NNC \<Rightarrow> NNC" where
  "add_edit edit_node s =
     (if m_edit s \<noteq> []
         \<and> cell1 (last (m_edit s)) = cell1 edit_node
         \<and> cell2 (last (m_edit s)) = cell2 edit_node
      then s\<lparr>m_edit := butlast (m_edit s)
               @ [(last (m_edit s))\<lparr>trans_v := trans_v (last (m_edit s)) * trans_v edit_node\<rparr>]\<rparr>
      else s\<lparr>m_edit := m_edit s @ [edit_node]\<rparr>)"

definition load_edit_record :: "EclipseGrid \<Rightarrow> DeckRecord \<Rightarrow> NNCdata list \<Rightarrow> NNCdata list" where
  "load_edit_record grid rec nnc_edit =
     (let tran_mult = item_double rec
      in if tran_mult = 1 then nnc_edit
         else (case make_index_pair grid rec of
                 None \<Rightarrow> nnc_edit
               | Some (g1, g2) \<Rightarrow>
                   if is_neighbor grid g1 g2 then nnc_edit
                   else nnc_edit @ [\<lparr>cell1 = g1, cell2 = g2, trans_v = tran_mult\<rparr>]))"

definition load_edit_keyword ::
  "EclipseGrid \<Rightarrow> DeckKeyword \<Rightarrow> NNCdata list \<times> NNC \<Rightarrow> NNCdata list \<times> NNC" where
  "load_edit_keyword grid kw st =
     (let nnc_edit = fold (load_edit_record grid) (records kw) (fst st);
          s = snd st
      in (nnc_edit,
          if m_edit_location s = None then s\<lparr>m_edit_location := Some (location kw)\<rparr> else s))"

text \<open>
  The inner \<open>while\<close> loop of the merge: from the cursor on, every entry of \<open>m_input\<close>
  with the cells of the edit is multiplied. It returns the list, the cursor and
  \<open>edit_processed\<close>.
\<close>

function scale_run :: "NNCdata \<Rightarrow> NNCdata list \<Rightarrow> nat \<Rightarrow> bool \<Rightarrow> NNCdata list \<times> nat \<times> bool" where
  "scale_run current_edit inp current_input edit_processed =
     (if current_input < length inp
         \<and> cell1 (inp ! current_input) = cell1 current_edit
         \<and> cell2 (inp ! current_input) = cell2 current_edit
      then scale_run current_edit
             (inp[current_input :=
                (inp ! current_input)\<lparr>trans_v := trans_v (inp ! current_input) * trans_v current_edit\<rparr>])
             (Suc current_input) True
      else (inp, current_input, edit_processed))"
  by pat_completeness auto
termination
  by (relation "measure (\<lambda>(e, inp, cur, p). length inp - cur)") auto

declare scale_run.simps [simp del]

text \<open>
  One round of the loop over the sorted edits. The state is the object and the cursor
  \<open>current_input\<close>, an index into \<open>m_input\<close> (its length is \<open>m_input.end()\<close>).
\<close>

definition merge_edit :: "NNCdata \<Rightarrow> NNC \<times> nat \<Rightarrow> NNC \<times> nat" where
  "merge_edit current_edit st =
     (let s = fst st; current_input = snd st
      in if current_input = length (m_input s) then (add_edit current_edit s, current_input)
         else
           let mismatch = (cell1 (m_input s ! current_input) \<noteq> cell1 current_edit
                           \<or> cell2 (m_input s ! current_input) \<noteq> cell2 current_edit);
               sought = (if mismatch
                         then lower_bound (m_input s)
                                \<lparr>cell1 = cell1 current_edit, cell2 = cell2 current_edit, trans_v = 0\<rparr>
                         else current_input)
           in if mismatch \<and> sought = length (m_input s) then (add_edit current_edit s, sought)
              else
                (case scale_run current_edit (m_input s) sought False of
                   (inp, cur, edit_processed) \<Rightarrow>
                     (if \<not> edit_processed then add_edit current_edit (s\<lparr>m_input := inp\<rparr>)
                      else s\<lparr>m_input := inp\<rparr>, cur)))"

definition load_edit :: "EclipseGrid \<Rightarrow> Deck \<Rightarrow> NNC \<Rightarrow> NNC" where
  "load_edit grid deck s =
     (let st = fold (load_edit_keyword grid) (EDITNNC_keywords deck) ([], s);
          nnc_edit = std_sort (fst st)
      in fst (fold merge_edit nnc_edit (snd st, 0)))"

subsection \<open>load_editr\<close>

definition load_editr_record :: "EclipseGrid \<Rightarrow> DeckRecord \<Rightarrow> NNCdata list \<Rightarrow> NNCdata list" where
  "load_editr_record grid rec nnc_editr =
     (case make_index_pair grid rec of
        None \<Rightarrow> nnc_editr
      | Some (g1, g2) \<Rightarrow>
          if is_neighbor grid g1 g2 then nnc_editr
          else \<lparr>cell1 = g1, cell2 = g2, trans_v = item_SIDouble rec\<rparr> # nnc_editr)"

definition load_editr_keyword ::
  "EclipseGrid \<Rightarrow> DeckKeyword \<Rightarrow> NNCdata list \<times> NNC \<Rightarrow> NNCdata list \<times> NNC" where
  "load_editr_keyword grid kw st =
     (if records kw = [] then st
      else
        let nnc_editr = fold (load_editr_record grid) (records kw) (fst st);
            s = snd st
        in (nnc_editr,
            if m_editr_location s = None then s\<lparr>m_editr_location := Some (location kw)\<rparr> else s))"

definition equality :: "NNCdata \<Rightarrow> NNCdata \<Rightarrow> bool" where
  "equality d1 d2 = (cell1 d1 = cell1 d2 \<and> cell2 d1 = cell2 d2)"

definition load_editr :: "EclipseGrid \<Rightarrow> Deck \<Rightarrow> NNC \<Rightarrow> NNC" where
  "load_editr grid deck s =
     (if EDITNNCR_keywords deck = [] then s
      else
        let st = fold (load_editr_keyword grid) (EDITNNCR_keywords deck) ([], s);
            s1 = snd st
        in if fst st = [] then s1
           else
             let nnc_editr = std_unique equality (std_stable_sort (fst st));
                 slim_edit = set_difference (m_edit s1) nnc_editr
             in s1\<lparr>m_edit := slim_edit, m_editr := nnc_editr\<rparr>)"

subsection \<open>The constructor and addNNC\<close>

definition NNC_ctor :: "EclipseGrid \<Rightarrow> Deck \<Rightarrow> NNC" where
  "NNC_ctor grid deck = load_editr grid deck (load_edit grid deck (load_input grid deck NNC_default))"

function addNNC :: "size_t \<Rightarrow> size_t \<Rightarrow> real \<Rightarrow> NNC \<Rightarrow> bool \<times> NNC" where
  "addNNC c1 c2 tr s =
     (if c1 > c2 then addNNC c2 c1 tr s
      else
        let nnc = \<lparr>cell1 = c1, cell2 = c2, trans_v = tr\<rparr>;
            insert_iter = lower_bound (m_input s) nnc
        in (True, s\<lparr>m_input := take insert_iter (m_input s) @ nnc # drop insert_iter (m_input s)\<rparr>))"
  by pat_completeness auto
termination
  by (relation "measure (\<lambda>(c1, c2, tr, s). if c1 > c2 then 1 else 0)") auto

declare addNNC.simps [simp del]

section \<open>Notions used to state the properties\<close>

text \<open>
  The 0-based coordinate of an item, in the arithmetic of the C++ \<open>int\<close>, and what it
  means for the triple at an offset of a record to address an active cell of the grid.
  For the smallest \<open>int\<close> the subtraction overflows, which C++ leaves undefined; the
  32-bit word wraps around.
\<close>

definition zero_based :: "cint \<Rightarrow> int" where
  "zero_based c = sint (c - 1)"

definition in_bounds :: "EclipseGrid \<Rightarrow> DeckRecord \<Rightarrow> nat \<Rightarrow> bool" where
  "in_bounds grid rec item_offset \<longleftrightarrow>
     0 \<le> zero_based (item_int rec (0 + item_offset))
     \<and> zero_based (item_int rec (0 + item_offset)) < uint (getNX grid)
     \<and> 0 \<le> zero_based (item_int rec (1 + item_offset))
     \<and> zero_based (item_int rec (1 + item_offset)) < uint (getNY grid)
     \<and> 0 \<le> zero_based (item_int rec (2 + item_offset))
     \<and> zero_based (item_int rec (2 + item_offset)) < uint (getNZ grid)"

definition addressed_active :: "EclipseGrid \<Rightarrow> DeckRecord \<Rightarrow> nat \<Rightarrow> bool" where
  "addressed_active grid rec item_offset \<longleftrightarrow>
     cellActive grid (word_of_int (zero_based (item_int rec (0 + item_offset))))
                     (word_of_int (zero_based (item_int rec (1 + item_offset))))
                     (word_of_int (zero_based (item_int rec (2 + item_offset))))"

definition addressed_index :: "EclipseGrid \<Rightarrow> DeckRecord \<Rightarrow> nat \<Rightarrow> size_t" where
  "addressed_index grid rec item_offset =
     getGlobalIndex grid (word_of_int (zero_based (item_int rec (0 + item_offset))))
                         (word_of_int (zero_based (item_int rec (1 + item_offset))))
                         (word_of_int (zero_based (item_int rec (2 + item_offset))))"

text \<open>
  The extents of a grid leave room for the sign extension of a negative \<open>int\<close>: each is
  at most \<open>2^64 - 2^31\<close>. A grid whose extents are \<open>int\<close> values satisfies this.
\<close>

definition extents_fit :: "EclipseGrid \<Rightarrow> bool" where
  "extents_fit grid \<longleftrightarrow>
     uint (getNX grid) \<le> 2 ^ 64 - 2 ^ 31
     \<and> uint (getNY grid) \<le> 2 ^ 64 - 2 ^ 31
     \<and> uint (getNZ grid) \<le> 2 ^ 64 - 2 ^ 31"

text \<open>
  The multiplicative edits that survive the filters of \<open>load_edit\<close>, in the order of
  the deck, and the records of all EDITNNCR keywords, in the order of the deck.
\<close>

definition surviving_edits :: "EclipseGrid \<Rightarrow> Deck \<Rightarrow> NNCdata list" where
  "surviving_edits grid deck =
     fst (fold (load_edit_keyword grid) (EDITNNC_keywords deck) ([], NNC_default))"

definition editr_records :: "Deck \<Rightarrow> DeckRecord list" where
  "editr_records deck = concat (map records (EDITNNCR_keywords deck))"

definition editr_records_for :: "EclipseGrid \<Rightarrow> Deck \<Rightarrow> size_t \<times> size_t \<Rightarrow> DeckRecord list" where
  "editr_records_for grid deck K =
     filter (\<lambda>r. make_index_pair grid r = Some K) (editr_records deck)"

text \<open>
  The entry that \<open>load_editr\<close> pushes for a record, if it pushes one, and when the
  key of an entry is admitted to an overlay: its cells are in order and not adjacent.
\<close>

definition editr_entry :: "EclipseGrid \<Rightarrow> DeckRecord \<Rightarrow> NNCdata option" where
  "editr_entry grid rec =
     (case make_index_pair grid rec of
        None \<Rightarrow> None
      | Some (g1, g2) \<Rightarrow>
          if is_neighbor grid g1 g2 then None
          else Some \<lparr>cell1 = g1, cell2 = g2, trans_v = item_SIDouble rec\<rparr>)"

definition overlay_key :: "EclipseGrid \<Rightarrow> size_t \<times> size_t \<Rightarrow> bool" where
  "overlay_key grid k \<longleftrightarrow> fst k \<le> snd k \<and> \<not> is_neighbor grid (fst k) (snd k)"

text \<open>
  Two notions about the cursor of the merge: the position at which a round of the loop
  looks for the run of its edit (the cursor itself when its entry has the cells of the
  edit, the lower bound of the edit otherwise), and the cursor standing before every
  entry whose key is at least a given key.
\<close>

definition seek :: "NNCdata \<Rightarrow> NNCdata list \<Rightarrow> nat \<Rightarrow> nat" where
  "seek e inp cur =
     (if nnc_key (inp ! cur) \<noteq> nnc_key e
      then length (takeWhile (\<lambda>d. nnc_key d < nnc_key e) inp) else cur)"

definition cursor_below :: "size_t \<times> size_t \<Rightarrow> NNC \<times> nat \<Rightarrow> bool" where
  "cursor_below K st \<longleftrightarrow>
     snd st \<le> length (m_input (fst st))
     \<and> (\<forall>i < snd st. nnc_key (m_input (fst st) ! i) < K)"

text \<open>The entries of a list that have a given key.\<close>

definition entries_for :: "size_t \<times> size_t \<Rightarrow> NNCdata list \<Rightarrow> NNCdata list" where
  "entries_for K xs = filter (\<lambda>d. nnc_key d = K) xs"

definition scaled :: "real \<Rightarrow> NNCdata \<Rightarrow> NNCdata" where
  "scaled f d = d\<lparr>trans_v := trans_v d * f\<rparr>"

text \<open>
  The invariants of a state that the properties speak about: \<open>m_input\<close> is ascending
  by key; every key of the three lists has its first cell strictly below the second
  (\<open>keys_strict\<close>); the same with the first cell at most the second in \<open>m_input\<close>
  (\<open>keys_ordered\<close>).
\<close>

definition input_sorted :: "NNC \<Rightarrow> bool" where
  "input_sorted s \<longleftrightarrow> sorted (map nnc_key (m_input s))"

definition keys_strict :: "NNC \<Rightarrow> bool" where
  "keys_strict s \<longleftrightarrow>
     list_all (\<lambda>d. cell1 d < cell2 d) (m_input s)
     \<and> list_all (\<lambda>d. cell1 d < cell2 d) (m_edit s)
     \<and> list_all (\<lambda>d. cell1 d < cell2 d) (m_editr s)"

definition keys_ordered :: "NNC \<Rightarrow> bool" where
  "keys_ordered s \<longleftrightarrow>
     list_all (\<lambda>d. cell1 d \<le> cell2 d) (m_input s)
     \<and> list_all (\<lambda>d. cell1 d < cell2 d) (m_edit s)
     \<and> list_all (\<lambda>d. cell1 d < cell2 d) (m_editr s)"

section \<open>An example grid and example decks\<close>

text \<open>
  The grid of the spec's example: 3 x 3 x 1 cells, all active, with the global index
  \<open>i + 3 j + 9 k\<close>.
\<close>

definition grid331 :: EclipseGrid where
  "grid331 = \<lparr>getNX = 3, getNY = 3, getNZ = 1, cellActive = (\<lambda>i j k. True),
     getGlobalIndex = (\<lambda>i j k. i + 3 * j + 9 * k)\<rparr>"

definition deck_record :: "cint list \<Rightarrow> real \<Rightarrow> DeckRecord" where
  "deck_record xs v = \<lparr>item_int = (\<lambda>n. xs ! n), item_double = v, item_SIDouble = v\<rparr>"

definition deck_keyword :: "string \<Rightarrow> DeckRecord list \<Rightarrow> DeckKeyword" where
  "deck_keyword name rs =
     \<lparr>location = \<lparr>keyword = name, filename = ''CASE.DATA'', lineno = 1\<rparr>, records = rs\<rparr>"

text \<open>One connection 0-8 and two multipliers for it.\<close>

definition deck_two_edits :: Deck where
  "deck_two_edits =
     \<lparr>NNC_keywords = [deck_keyword ''NNC'' [deck_record [1,1,1,3,3,1] 5]],
      EDITNNC_keywords = [deck_keyword ''EDITNNC''
         [deck_record [1,1,1,3,3,1] 2, deck_record [1,1,1,3,3,1] 3]],
      EDITNNCR_keywords = []\<rparr>"

text \<open>A base record whose two triples address the same cell.\<close>

definition deck_self_pair :: Deck where
  "deck_self_pair =
     \<lparr>NNC_keywords = [deck_keyword ''NNC'' [deck_record [2,2,1,2,2,1] 5]],
      EDITNNC_keywords = [], EDITNNCR_keywords = []\<rparr>"

text \<open>A replacement record for the cells 0 and 1, which are adjacent.\<close>

definition deck_adjacent_editr :: Deck where
  "deck_adjacent_editr =
     \<lparr>NNC_keywords = [], EDITNNC_keywords = [],
      EDITNNCR_keywords = [deck_keyword ''EDITNNCR'' [deck_record [1,1,1,2,1,1] 9]]\<rparr>"

text \<open>
  Two connections 0-8, one connection 1-8, one multiplier for 0-8, multipliers for 0-5
  and 2-7, which are no connections, and replacements for 0-5 (three of them, in two
  keywords, with one for 1-6 in between) and for 0-1.
\<close>

definition deck_mixed :: Deck where
  "deck_mixed =
     \<lparr>NNC_keywords = [deck_keyword ''NNC''
         [deck_record [2,1,1,3,3,1] 7, deck_record [1,1,1,3,3,1] 5, deck_record [3,3,1,1,1,1] 4,
          deck_record [4,1,1,1,1,1] 1]],
      EDITNNC_keywords = [deck_keyword ''EDITNNC''
         [deck_record [1,1,1,3,3,1] 2, deck_record [1,1,1,3,2,1] 6, deck_record [3,1,1,2,3,1] 3,
          deck_record [1,1,1,2,1,1] 8, deck_record [2,1,1,3,3,1] 1]],
      EDITNNCR_keywords =
        [deck_keyword ''EDITNNCR''
           [deck_record [1,1,1,3,2,1] 10, deck_record [2,1,1,1,3,1] 11, deck_record [3,2,1,1,1,1] 12],
         deck_keyword ''EDITNNCR''
           [deck_record [1,1,1,2,1,1] 9, deck_record [1,1,1,3,2,1] 13]]\<rparr>"

section \<open>Facts about the merge of the edits\<close>

lemma nnc_key_trans_update [simp]: "nnc_key (d\<lparr>trans_v := t\<rparr>) = nnc_key d"
  by (simp add: nnc_key_def)

lemma nnc_key_eq_iff: "nnc_key a = nnc_key b \<longleftrightarrow> cell1 a = cell1 b \<and> cell2 a = cell2 b"
  by (simp add: nnc_key_def)

lemma make_index_pair_le: "make_index_pair grid r = Some (a, b) \<Longrightarrow> a \<le> b"
  by (auto simp: make_index_pair_def split: option.splits if_splits)

subsection \<open>scale_run\<close>

lemma scale_run_length: "length (fst (scale_run e inp cur p)) = length inp"
proof (induction e inp cur p rule: scale_run.induct)
  case (1 e inp cur p)
  show ?case
    using "1" by (subst scale_run.simps) (simp split: if_splits)
qed

lemma scale_run_keys: "map nnc_key (fst (scale_run e inp cur p)) = map nnc_key inp"
proof (induction e inp cur p rule: scale_run.induct)
  case (1 e inp cur p)
  show ?case
  proof (cases "cur < length inp \<and> cell1 (inp ! cur) = cell1 e \<and> cell2 (inp ! cur) = cell2 e")
    case True
    have "map nnc_key (inp[cur := (inp ! cur)\<lparr>trans_v := trans_v (inp ! cur) * trans_v e\<rparr>]) = map nnc_key inp"
      using True by (simp add: map_update list_update_same_conv)
    with "1" True show ?thesis
      by (subst scale_run.simps) simp
  next
    case False
    then show ?thesis by (subst scale_run.simps) auto
  qed
qed

subsection \<open>add_edit and merge_edit\<close>

lemma add_edit_frame:
  "m_input (add_edit e s) = m_input s" "m_editr (add_edit e s) = m_editr s"
  "m_nnc_location (add_edit e s) = m_nnc_location s"
  "m_edit_location (add_edit e s) = m_edit_location s"
  "m_editr_location (add_edit e s) = m_editr_location s"
  by (simp_all add: add_edit_def)

lemma add_edit_input_update: "m_edit (add_edit e (s\<lparr>m_input := inp\<rparr>)) = m_edit (add_edit e s)"
  by (simp add: add_edit_def)

lemma add_edit_m_edit:
  "m_edit (add_edit e s) =
     (if m_edit s \<noteq> [] \<and> nnc_key (last (m_edit s)) = nnc_key e
      then butlast (m_edit s) @ [(last (m_edit s))\<lparr>trans_v := trans_v (last (m_edit s)) * trans_v e\<rparr>]
      else m_edit s @ [e])"
  by (simp add: add_edit_def nnc_key_eq_iff)

lemma map_key_butlast_last:
  "xs \<noteq> [] \<Longrightarrow> map nnc_key (butlast xs) @ [nnc_key (last xs)] = map nnc_key xs"
  by (induction xs) auto

lemma add_edit_keys:
  "map nnc_key (m_edit (add_edit e s)) =
     (if m_edit s \<noteq> [] \<and> nnc_key (last (m_edit s)) = nnc_key e then map nnc_key (m_edit s)
      else map nnc_key (m_edit s) @ [nnc_key e])"
proof (cases "m_edit s \<noteq> [] \<and> nnc_key (last (m_edit s)) = nnc_key e")
  case True
  then have "map nnc_key (butlast (m_edit s)) @ [nnc_key e] = map nnc_key (m_edit s)"
    using map_key_butlast_last [of "m_edit s"] by simp
  with True show ?thesis by (simp add: add_edit_m_edit)
next
  case False
  then have "m_edit (add_edit e s) = m_edit s @ [e]"
    unfolding add_edit_m_edit by (rule if_not_P)
  with False show ?thesis by (simp only: if_not_P if_False map_append list.map)
qed

lemma merge_edit_cases:
  "(\<exists>cur'. merge_edit e st = (add_edit e (fst st), cur'))
   \<or> (\<exists>sought. merge_edit e st =
         (if \<not> snd (snd (scale_run e (m_input (fst st)) sought False))
          then add_edit e ((fst st)\<lparr>m_input := fst (scale_run e (m_input (fst st)) sought False)\<rparr>)
          else (fst st)\<lparr>m_input := fst (scale_run e (m_input (fst st)) sought False)\<rparr>,
          fst (snd (scale_run e (m_input (fst st)) sought False))))"
proof (cases "snd st = length (m_input (fst st))")
  case True
  then show ?thesis by (simp add: merge_edit_def Let_def)
next
  case False
  let ?lb = "lower_bound (m_input (fst st)) \<lparr>cell1 = cell1 e, cell2 = cell2 e, trans_v = 0\<rparr>"
  let ?res = "\<lambda>sought.
         (if \<not> snd (snd (scale_run e (m_input (fst st)) sought False))
          then add_edit e ((fst st)\<lparr>m_input := fst (scale_run e (m_input (fst st)) sought False)\<rparr>)
          else (fst st)\<lparr>m_input := fst (scale_run e (m_input (fst st)) sought False)\<rparr>,
          fst (snd (scale_run e (m_input (fst st)) sought False)))"
  show ?thesis
  proof (cases "cell1 (m_input (fst st) ! snd st) \<noteq> cell1 e
                \<or> cell2 (m_input (fst st) ! snd st) \<noteq> cell2 e")
    case mm: True
    show ?thesis
    proof (cases "?lb = length (m_input (fst st))")
      case True
      with False mm have "merge_edit e st = (add_edit e (fst st), ?lb)"
        by (auto simp: merge_edit_def Let_def)
      then show ?thesis by blast
    next
      case nl: False
      with False mm have "merge_edit e st = ?res ?lb"
        by (auto simp: merge_edit_def Let_def split: prod.splits)
      then show ?thesis by blast
    qed
  next
    case nm: False
    with False have "merge_edit e st = ?res (snd st)"
      by (auto simp: merge_edit_def Let_def split: prod.splits)
    then show ?thesis by blast
  qed
qed

lemma merge_edit_frame:
  "map nnc_key (m_input (fst (merge_edit e st))) = map nnc_key (m_input (fst st))"
  "m_editr (fst (merge_edit e st)) = m_editr (fst st)"
  "m_nnc_location (fst (merge_edit e st)) = m_nnc_location (fst st)"
  "m_edit_location (fst (merge_edit e st)) = m_edit_location (fst st)"
  "m_editr_location (fst (merge_edit e st)) = m_editr_location (fst st)"
  using merge_edit_cases [of e st] scale_run_keys [of e "m_input (fst st)" _ False]
  by (auto simp: add_edit_frame)

lemma merge_edit_m_edit:
  "m_edit (fst (merge_edit e st)) = m_edit (fst st)
   \<or> m_edit (fst (merge_edit e st)) = m_edit (add_edit e (fst st))"
  using merge_edit_cases [of e st]
  by (auto simp: add_edit_input_update)

lemma merge_edit_edit_keys:
  "map nnc_key (m_edit (fst (merge_edit e st))) = map nnc_key (m_edit (fst st))
   \<or> map nnc_key (m_edit (fst (merge_edit e st))) = map nnc_key (m_edit (fst st)) @ [nnc_key e]"
  using merge_edit_m_edit [of e st] add_edit_keys [of e "fst st"]
  by (auto split: if_splits)

lemma fold_merge_edit_frame:
  "map nnc_key (m_input (fst (fold merge_edit es st))) = map nnc_key (m_input (fst st))"
  "m_editr (fst (fold merge_edit es st)) = m_editr (fst st)"
  "m_nnc_location (fst (fold merge_edit es st)) = m_nnc_location (fst st)"
  "m_edit_location (fst (fold merge_edit es st)) = m_edit_location (fst st)"
  "m_editr_location (fst (fold merge_edit es st)) = m_editr_location (fst st)"
  by (induction es arbitrary: st; simp add: merge_edit_frame)+

lemma fold_merge_edit_key_subset:
  "nnc_key ` set (m_edit (fst (fold merge_edit es st)))
     \<subseteq> nnc_key ` set (m_edit (fst st)) \<union> nnc_key ` set es"
proof (induction es arbitrary: st)
  case Nil
  then show ?case by simp
next
  case (Cons e es)
  have "set (map nnc_key (m_edit (fst (merge_edit e st))))
          \<subseteq> set (map nnc_key (m_edit (fst st))) \<union> {nnc_key e}"
    using merge_edit_edit_keys [of e st] by (metis Un_upper1 set_append list.set(1) list.set(2) subset_refl)
  then have "nnc_key ` set (m_edit (fst (merge_edit e st)))
          \<subseteq> nnc_key ` set (m_edit (fst st)) \<union> {nnc_key e}" by simp
  with Cons.IH [of "merge_edit e st"] show ?case by auto
qed

lemma strict_sorted_le_last:
  "k \<in> set ks \<Longrightarrow> sorted_wrt (<) ks \<Longrightarrow> k \<le> last (ks :: ('a :: linorder) list)"
  by (induction ks) (auto intro: less_imp_le)

text \<open>The overlay stays strictly ascending by key when the edits come in ascending order.\<close>

lemma fold_merge_edit_strict:
  "sorted (map nnc_key es) \<Longrightarrow> sorted_wrt (<) (map nnc_key (m_edit (fst st)))
   \<Longrightarrow> (\<forall>k \<in> set (map nnc_key (m_edit (fst st))). \<forall>k' \<in> set (map nnc_key es). k \<le> k')
   \<Longrightarrow> sorted_wrt (<) (map nnc_key (m_edit (fst (fold merge_edit es st))))"
proof (induction es arbitrary: st)
  case Nil
  then show ?case by simp
next
  case (Cons e es)
  define ks where "ks = map nnc_key (m_edit (fst st))"
  define ks' where "ks' = map nnc_key (m_edit (fst (merge_edit e st)))"
  define rest where "rest = map nnc_key es"
  have srt: "sorted_wrt (<) ks" using Cons.prems(2) by (simp add: ks_def)
  have le_e: "\<forall>k \<in> set ks. k \<le> nnc_key e" using Cons.prems(3) by (simp add: ks_def)
  have e_le: "\<forall>k' \<in> set rest. nnc_key e \<le> k'" using Cons.prems(1) by (simp add: rest_def)
  have step: "ks' = ks \<or> (ks' = ks @ [nnc_key e] \<and> (ks = [] \<or> last ks \<noteq> nnc_key e))"
    using merge_edit_m_edit [of e st] add_edit_keys [of e "fst st"]
    unfolding ks_def ks'_def by (auto simp: last_map split: if_splits)
  have strict': "sorted_wrt (<) ks'"
  proof -
    { assume new: "ks' = ks @ [nnc_key e]" and ne: "ks = [] \<or> last ks \<noteq> nnc_key e"
      have "\<forall>k \<in> set ks. k < nnc_key e"
      proof
        fix k assume k: "k \<in> set ks"
        then have nonempty: "ks \<noteq> []" by auto
        have "k \<le> last ks"
          using k srt by (rule strict_sorted_le_last)
        moreover have "last ks \<le> nnc_key e" using le_e nonempty last_in_set by blast
        moreover have "last ks \<noteq> nnc_key e" using ne nonempty by simp
        ultimately show "k < nnc_key e" by simp
      qed
      then have "sorted_wrt (<) ks'"
        using srt new by (simp add: sorted_wrt_append) }
    with step srt show ?thesis by blast
  qed
  have bound': "\<forall>k \<in> set ks'. \<forall>k' \<in> set rest. k \<le> k'"
  proof (intro ballI)
    fix k k' assume k: "k \<in> set ks'" and k': "k' \<in> set rest"
    from step k have "k \<in> set ks \<or> k = nnc_key e" by auto
    then have "k \<le> nnc_key e" using le_e by blast
    moreover have "nnc_key e \<le> k'" using e_le k' by blast
    ultimately show "k \<le> k'" by (rule order_trans)
  qed
  have "sorted (map nnc_key es)" using Cons.prems(1) by simp
  from Cons.IH [OF this strict' [unfolded ks'_def] bound' [unfolded ks'_def rest_def]]
  show ?case by simp
qed

section \<open>Facts about the loaders\<close>

subsection \<open>load_input\<close>

lemma load_input_record_frame:
  "m_edit (load_input_record g r s) = m_edit s"
  "m_editr (load_input_record g r s) = m_editr s"
  by (simp_all add: load_input_record_def split: option.splits prod.splits)

lemma load_input_record_ordered:
  "list_all (\<lambda>d. cell1 d \<le> cell2 d) (m_input s)
   \<Longrightarrow> list_all (\<lambda>d. cell1 d \<le> cell2 d) (m_input (load_input_record g r s))"
  by (auto simp: load_input_record_def split: option.splits dest: make_index_pair_le)

lemma fold_load_input_record:
  "m_edit (fold (load_input_record g) rs s) = m_edit s
   \<and> m_editr (fold (load_input_record g) rs s) = m_editr s
   \<and> (list_all (\<lambda>d. cell1 d \<le> cell2 d) (m_input s)
        \<longrightarrow> list_all (\<lambda>d. cell1 d \<le> cell2 d) (m_input (fold (load_input_record g) rs s)))"
proof (induction rs arbitrary: s)
  case Nil
  show ?case by simp
next
  case (Cons r rs)
  show ?case
    using Cons.IH [of "load_input_record g r s"] load_input_record_ordered [of s g r]
    by (simp add: load_input_record_frame)
qed

lemma load_input_keyword_props:
  "m_edit (load_input_keyword g kw s) = m_edit s
   \<and> m_editr (load_input_keyword g kw s) = m_editr s
   \<and> (list_all (\<lambda>d. cell1 d \<le> cell2 d) (m_input s)
        \<longrightarrow> list_all (\<lambda>d. cell1 d \<le> cell2 d) (m_input (load_input_keyword g kw s)))"
  using fold_load_input_record [of g "records kw" s]
  by (simp add: load_input_keyword_def Let_def)

lemma fold_load_input_keyword:
  "m_edit (fold (load_input_keyword g) kws s) = m_edit s
   \<and> m_editr (fold (load_input_keyword g) kws s) = m_editr s
   \<and> (list_all (\<lambda>d. cell1 d \<le> cell2 d) (m_input s)
        \<longrightarrow> list_all (\<lambda>d. cell1 d \<le> cell2 d) (m_input (fold (load_input_keyword g) kws s)))"
proof (induction kws arbitrary: s)
  case Nil
  show ?case by simp
next
  case (Cons kw kws)
  show ?case
    using Cons.IH [of "load_input_keyword g kw s"] load_input_keyword_props [of g kw s]
    by simp
qed

lemma list_all_std_sort: "list_all P (std_sort xs) = list_all P xs"
  by (simp add: std_sort_def list_all_iff)

lemma load_input_props:
  "m_edit (load_input g deck s) = m_edit s"
  "m_editr (load_input g deck s) = m_editr s"
  "sorted (map nnc_key (m_input (load_input g deck s)))"
  "list_all (\<lambda>d. cell1 d \<le> cell2 d) (m_input s)
     \<Longrightarrow> list_all (\<lambda>d. cell1 d \<le> cell2 d) (m_input (load_input g deck s))"
  using fold_load_input_keyword [of g "NNC_keywords deck" s]
  by (simp_all add: load_input_def Let_def list_all_std_sort) (simp add: std_sort_def)

subsection \<open>The edits collected by load_edit\<close>

lemma load_edit_record_keys:
  "list_all (\<lambda>d. overlay_key g (nnc_key d)) acc
   \<Longrightarrow> list_all (\<lambda>d. overlay_key g (nnc_key d)) (load_edit_record g r acc)"
  by (auto simp: load_edit_record_def Let_def overlay_key_def nnc_key_def
      split: option.splits dest: make_index_pair_le)

lemma fold_load_edit_record_keys:
  "list_all (\<lambda>d. overlay_key g (nnc_key d)) acc
   \<Longrightarrow> list_all (\<lambda>d. overlay_key g (nnc_key d)) (fold (load_edit_record g) rs acc)"
  by (induction rs arbitrary: acc) (simp_all add: load_edit_record_keys)

lemma fold_load_edit_keyword_fst:
  "fst (fold (load_edit_keyword g) kws (acc, s))
     = fold (\<lambda>kw. fold (load_edit_record g) (records kw)) kws acc"
proof (induction kws arbitrary: acc s)
  case Nil
  show ?case by simp
next
  case (Cons kw kws)
  show ?case
    using Cons.IH by (simp add: load_edit_keyword_def Let_def)
qed

lemma fold_load_edit_keyword_snd:
  "m_input (snd (fold (load_edit_keyword g) kws st)) = m_input (snd st)
   \<and> m_edit (snd (fold (load_edit_keyword g) kws st)) = m_edit (snd st)
   \<and> m_editr (snd (fold (load_edit_keyword g) kws st)) = m_editr (snd st)"
proof (induction kws arbitrary: st)
  case Nil
  show ?case by simp
next
  case (Cons kw kws)
  show ?case
    using Cons.IH [of "load_edit_keyword g kw st"]
    by (simp add: load_edit_keyword_def Let_def)
qed

lemma collected_edits_keys:
  "list_all (\<lambda>d. overlay_key g (nnc_key d)) acc
   \<Longrightarrow> list_all (\<lambda>d. overlay_key g (nnc_key d))
         (fold (\<lambda>kw. fold (load_edit_record g) (records kw)) kws acc)"
  by (induction kws arbitrary: acc) (simp_all add: fold_load_edit_record_keys)

lemma surviving_edits_eq:
  "fst (fold (load_edit_keyword g) (EDITNNC_keywords deck) ([], s)) = surviving_edits g deck"
  by (simp add: surviving_edits_def fold_load_edit_keyword_fst)

lemma surviving_edits_keys:
  "list_all (\<lambda>d. overlay_key g (nnc_key d)) (surviving_edits g deck)"
  unfolding surviving_edits_def fold_load_edit_keyword_fst
  by (rule collected_edits_keys) simp

lemma load_edit_eq:
  "load_edit g deck s =
     fst (fold merge_edit (std_sort (surviving_edits g deck))
            (snd (fold (load_edit_keyword g) (EDITNNC_keywords deck) ([], s)), 0))"
  by (simp add: load_edit_def Let_def surviving_edits_eq)

lemma load_edit_props:
  "map nnc_key (m_input (load_edit g deck s)) = map nnc_key (m_input s)"
  "m_editr (load_edit g deck s) = m_editr s"
  "nnc_key ` set (m_edit (load_edit g deck s))
     \<subseteq> nnc_key ` set (m_edit s) \<union> nnc_key ` set (surviving_edits g deck)"
  "m_edit s = [] \<Longrightarrow> sorted_wrt (<) (map nnc_key (m_edit (load_edit g deck s)))"
proof -
  let ?st = "fold (load_edit_keyword g) (EDITNNC_keywords deck) ([], s)"
  let ?es = "std_sort (surviving_edits g deck)"
  have snd_st: "m_input (snd ?st) = m_input s" "m_edit (snd ?st) = m_edit s"
      "m_editr (snd ?st) = m_editr s"
    using fold_load_edit_keyword_snd [of g "EDITNNC_keywords deck" "([], s)"] by simp_all
  show "map nnc_key (m_input (load_edit g deck s)) = map nnc_key (m_input s)"
    using fold_merge_edit_frame(1) [of ?es "(snd ?st, 0)"] by (simp add: load_edit_eq snd_st)
  show "m_editr (load_edit g deck s) = m_editr s"
    using fold_merge_edit_frame(2) [of ?es "(snd ?st, 0)"] by (simp add: load_edit_eq snd_st)
  show "nnc_key ` set (m_edit (load_edit g deck s))
     \<subseteq> nnc_key ` set (m_edit s) \<union> nnc_key ` set (surviving_edits g deck)"
    using fold_merge_edit_key_subset [of ?es "(snd ?st, 0)"]
    by (simp add: load_edit_eq snd_st std_sort_def)
  show "sorted_wrt (<) (map nnc_key (m_edit (load_edit g deck s)))" if "m_edit s = []"
  proof -
    have "sorted (map nnc_key ?es)" by (simp add: std_sort_def)
    moreover have "sorted_wrt (<) (map nnc_key (m_edit (fst (snd ?st, 0::nat))))"
      using that by (simp add: snd_st)
    moreover have "\<forall>k \<in> set (map nnc_key (m_edit (fst (snd ?st, 0::nat)))).
        \<forall>k' \<in> set (map nnc_key ?es). k \<le> k'"
      using that by (simp add: snd_st)
    ultimately have "sorted_wrt (<) (map nnc_key (m_edit (fst (fold merge_edit ?es (snd ?st, 0)))))"
      by (rule fold_merge_edit_strict)
    then show ?thesis by (simp add: load_edit_eq)
  qed
qed

section \<open>Facts about the standard algorithms\<close>

subsection \<open>std_unique and set_difference\<close>

lemma set_std_unique: "set (std_unique eq xs) \<subseteq> set xs"
  by (induction eq xs rule: std_unique.induct) auto

lemma std_unique_nonempty: "xs \<noteq> [] \<Longrightarrow> std_unique eq xs \<noteq> []"
  by (induction eq xs rule: std_unique.induct) auto

lemma sorted_std_unique:
  "sorted (map nnc_key xs) \<Longrightarrow> sorted (map nnc_key (std_unique eq xs))"
proof (induction eq xs rule: std_unique.induct)
  case (3 eq x y ys)
  show ?case
  proof (cases "eq x y")
    case True
    from "3.prems" have "sorted (map nnc_key (x # ys))" by auto
    with "3.IH"(1) True show ?thesis by simp
  next
    case False
    from "3.prems" have "sorted (map nnc_key (y # ys))" by simp
    with "3.IH"(2) False have s: "sorted (map nnc_key (std_unique eq (y # ys)))" by simp
    have "\<forall>d \<in> set (std_unique eq (y # ys)). nnc_key x \<le> nnc_key d"
      using set_std_unique [of eq "y # ys"] "3.prems" by auto
    with s False show ?thesis by simp
  qed
qed simp_all

text \<open>Of the entries of one key, a sorted list keeps the first one.\<close>

lemma filter_std_unique_gen:
  "(\<And>a b. eq a b \<longleftrightarrow> nnc_key a = nnc_key b) \<Longrightarrow> sorted (map nnc_key xs)
   \<Longrightarrow> filter (\<lambda>d. nnc_key d = K) (std_unique eq xs)
         = take 1 (filter (\<lambda>d. nnc_key d = K) xs)"
proof (induction eq xs rule: std_unique.induct)
  case (1 eq)
  show ?case by simp
next
  case (2 eq x)
  show ?case by simp
next
  case (3 eq x y ys)
  note eq_key = "3.prems"(1)
  note srt = "3.prems"(2)
  show ?case
  proof (cases "eq x y")
    case True
    then have k: "nnc_key x = nnc_key y" by (simp add: eq_key)
    from srt have "sorted (map nnc_key (x # ys))" by auto
    with "3.IH"(1) [OF True eq_key]
    have "filter (\<lambda>d. nnc_key d = K) (std_unique eq (x # ys))
            = take 1 (filter (\<lambda>d. nnc_key d = K) (x # ys))" by simp
    with True k show ?thesis by simp
  next
    case False
    then have ne: "nnc_key x \<noteq> nnc_key y" by (simp add: eq_key)
    from srt have sy: "sorted (map nnc_key (y # ys))" by simp
    with "3.IH"(2) [OF False eq_key]
    have ih: "filter (\<lambda>d. nnc_key d = K) (std_unique eq (y # ys))
            = take 1 (filter (\<lambda>d. nnc_key d = K) (y # ys))" by simp
    show ?thesis
    proof (cases "nnc_key x = K")
      case kx: True
      have "\<forall>d \<in> set (y # ys). nnc_key x < nnc_key d"
      proof
        fix d assume d: "d \<in> set (y # ys)"
        have "nnc_key x \<le> nnc_key y" using srt by simp
        with ne have "nnc_key x < nnc_key y" by simp
        moreover have "nnc_key y \<le> nnc_key d" using sy d by auto
        ultimately show "nnc_key x < nnc_key d" by simp
      qed
      then have "\<forall>d \<in> set (std_unique eq (y # ys)). nnc_key d \<noteq> K"
        using set_std_unique [of eq "y # ys"] kx by fastforce
      then have "filter (\<lambda>d. nnc_key d = K) (std_unique eq (y # ys)) = []"
        by (simp add: filter_empty_conv)
      with False kx show ?thesis by simp
    next
      case nk: False
      with False ih show ?thesis by simp
    qed
  qed
qed

lemma filter_std_unique:
  "sorted (map nnc_key xs)
   \<Longrightarrow> filter (\<lambda>d. nnc_key d = K) (std_unique equality xs)
         = take 1 (filter (\<lambda>d. nnc_key d = K) xs)"
  by (rule filter_std_unique_gen) (simp_all add: equality_def nnc_key_def)

lemma set_difference_subset: "set (set_difference xs ys) \<subseteq> set xs"
  by (induction xs ys rule: set_difference.induct) auto

lemma set_difference_keys:
  "sorted_wrt (<) (map nnc_key xs) \<Longrightarrow> sorted (map nnc_key ys)
   \<Longrightarrow> d \<in> set (set_difference xs ys) \<Longrightarrow> nnc_key d \<notin> nnc_key ` set ys"
proof (induction xs ys arbitrary: d rule: set_difference.induct)
  case (1 ys)
  then show ?case by simp
next
  case (2 x xs)
  then show ?case by simp
next
  case (3 x xs y ys)
  have sx: "sorted_wrt (<) (map nnc_key xs)" and x_lt: "\<forall>a \<in> set xs. nnc_key x < nnc_key a"
    using "3.prems"(1) by auto
  have sy: "sorted (map nnc_key ys)" and y_le: "\<forall>b \<in> set ys. nnc_key y \<le> nnc_key b"
    using "3.prems"(2) by auto
  show ?case
  proof (cases "nnc_less x y")
    case True
    then have xy: "nnc_key x < nnc_key y" by (simp add: nnc_less_def)
    from True "3.prems"(3) have "d = x \<or> d \<in> set (set_difference xs (y # ys))" by simp
    then show ?thesis
    proof
      assume "d = x"
      have "\<forall>b \<in> set (y # ys). nnc_key x < nnc_key b"
        using xy y_le by (auto intro: less_le_trans)
      with \<open>d = x\<close> show ?thesis by auto
    next
      assume "d \<in> set (set_difference xs (y # ys))"
      with "3.IH"(1) [OF True sx "3.prems"(2)] show ?thesis by simp
    qed
  next
    case nlt: False
    show ?thesis
    proof (cases "nnc_less y x")
      case False
      with nlt have eq: "nnc_key x = nnc_key y" by (simp add: nnc_less_def)
      from nlt False "3.prems"(3) have d: "d \<in> set (set_difference xs ys)" by simp
      with "3.IH"(2) [OF nlt _ sx sy] False have "nnc_key d \<notin> nnc_key ` set ys" by simp
      moreover have "d \<in> set xs" using d set_difference_subset by blast
      then have "nnc_key d \<noteq> nnc_key y" using x_lt eq by auto
      ultimately show ?thesis by simp
    next
      case True
      then have yx: "nnc_key y < nnc_key x" by (simp add: nnc_less_def)
      from nlt True "3.prems"(3) have d: "d \<in> set (set_difference (x # xs) ys)" by simp
      with "3.IH"(3) [OF nlt _ "3.prems"(1) sy] True have "nnc_key d \<notin> nnc_key ` set ys" by simp
      moreover have "d \<in> set (x # xs)" using d set_difference_subset by blast
      then have "nnc_key x \<le> nnc_key d" using x_lt by auto
      with yx have "nnc_key d \<noteq> nnc_key y" by auto
      ultimately show ?thesis by simp
    qed
  qed
qed

subsection \<open>Insertion at the lower bound\<close>

lemma sorted_insert_lower_bound:
  assumes "sorted (map nnc_key xs)"
  shows "sorted (map nnc_key (take (lower_bound xs v) xs @ v # drop (lower_bound xs v) xs))"
proof -
  let ?P = "\<lambda>e. nnc_less e v"
  have tk: "take (lower_bound xs v) xs = takeWhile ?P xs"
    by (simp only: lower_bound_def takeWhile_eq_take [symmetric])
  have dr: "drop (lower_bound xs v) xs = dropWhile ?P xs"
    by (simp only: lower_bound_def dropWhile_eq_drop [symmetric])
  have split: "xs = takeWhile ?P xs @ dropWhile ?P xs" by simp
  have s1: "sorted (map nnc_key (takeWhile ?P xs))"
    using assms by (metis map_append sorted_append split)
  have s2: "sorted (map nnc_key (dropWhile ?P xs))"
    using assms by (metis map_append sorted_append split)
  have below: "\<forall>a \<in> set (takeWhile ?P xs). nnc_key a < nnc_key v"
    using set_takeWhileD [of _ ?P xs] by (auto simp: nnc_less_def)
  have above: "\<forall>b \<in> set (dropWhile ?P xs). nnc_key v \<le> nnc_key b"
  proof (cases "dropWhile ?P xs")
    case Nil
    show ?thesis unfolding Nil by simp
  next
    case (Cons h t)
    then have "\<not> ?P h" using hd_dropWhile [of ?P xs] by auto
    then have vh: "nnc_key v \<le> nnc_key h" by (simp add: nnc_less_def)
    have "\<forall>b \<in> set t. nnc_key h \<le> nnc_key b" using s2 Cons by simp
    with vh show ?thesis unfolding Cons by (auto intro: order_trans)
  qed
  have cross: "nnc_key a \<le> nnc_key b"
    if "a \<in> set (takeWhile ?P xs)" "b \<in> set (dropWhile ?P xs)" for a b
  proof -
    have "nnc_key a < nnc_key v" using below that(1) by blast
    moreover have "nnc_key v \<le> nnc_key b" using above that(2) by blast
    ultimately show ?thesis by simp
  qed
  have "sorted (map nnc_key (takeWhile ?P xs @ v # dropWhile ?P xs))"
    using s1 s2 below above cross
    by (auto simp: sorted_append intro: less_imp_le)
  then show ?thesis by (simp only: tk dr)
qed

subsection \<open>Sign extension\<close>

lemma scast_ge_extent:
  fixes c :: cint and N :: size_t
  assumes "uint N \<le> 2 ^ 64 - 2 ^ 31"
  shows "N \<le> scast c \<longleftrightarrow> \<not> (0 \<le> sint c \<and> sint c < uint N)"
proof -
  have lo: "- (2 ^ 31) \<le> sint c" using sint_ge [of c] by simp
  have hi: "sint c < 2 ^ 31" using sint_lt [of c] by simp
  have u: "uint (scast c :: size_t) = sint c mod 2 ^ 64"
    unfolding scast_eq uint_word_of_int by simp
  show ?thesis
  proof (cases "0 \<le> sint c")
    case True
    with hi have "sint c mod 2 ^ 64 = sint c" by simp
    with u True show ?thesis by (simp add: word_le_def not_less)
  next
    case False
    with lo have "(sint c + 2 ^ 64) mod 2 ^ 64 = sint c + 2 ^ 64"
      by (intro mod_pos_pos_trivial) simp_all
    moreover have "(sint c + 2 ^ 64) mod 2 ^ 64 = sint c mod (2 ^ 64 :: int)"
      by (rule mod_add_self2)
    ultimately have "sint c mod 2 ^ 64 = sint c + 2 ^ 64" by simp
    with u lo assms False show ?thesis by (simp add: word_le_def)
  qed
qed

section \<open>Facts about the replacement loader\<close>

subsection \<open>load_editr\<close>

lemma load_editr_record_eq:
  "load_editr_record g r acc = (case editr_entry g r of None \<Rightarrow> acc | Some d \<Rightarrow> d # acc)"
  by (simp add: load_editr_record_def editr_entry_def split: option.splits prod.splits)

lemma map_filter_append: "List.map_filter f (xs @ ys) = List.map_filter f xs @ List.map_filter f ys"
  by (simp add: List.map_filter_def)

lemma fold_load_editr_record:
  "fold (load_editr_record g) rs acc = rev (List.map_filter (editr_entry g) rs) @ acc"
  by (induction rs arbitrary: acc)
     (simp_all add: List.map_filter_simps load_editr_record_eq split: option.splits)

lemma fold_load_editr_keyword_fst:
  "fst (fold (load_editr_keyword g) kws (acc, s))
     = rev (List.map_filter (editr_entry g) (concat (map records kws))) @ acc"
proof (induction kws arbitrary: acc s)
  case Nil
  show ?case by (simp add: List.map_filter_simps)
next
  case (Cons kw kws)
  show ?case
  proof (cases "records kw = []")
    case True
    then show ?thesis using Cons.IH [of acc s] by (simp add: load_editr_keyword_def)
  next
    case False
    then show ?thesis
      using Cons.IH
      by (simp add: load_editr_keyword_def Let_def fold_load_editr_record map_filter_append)
  qed
qed

lemma fold_load_editr_keyword_snd:
  "m_input (snd (fold (load_editr_keyword g) kws st)) = m_input (snd st)
   \<and> m_edit (snd (fold (load_editr_keyword g) kws st)) = m_edit (snd st)
   \<and> m_editr (snd (fold (load_editr_keyword g) kws st)) = m_editr (snd st)"
proof (induction kws arbitrary: st)
  case Nil
  show ?case by simp
next
  case (Cons kw kws)
  show ?case
    using Cons.IH [of "load_editr_keyword g kw st"]
    by (simp add: load_editr_keyword_def Let_def)
qed

lemma load_editr_eq:
  "load_editr g deck s =
     (let c = rev (List.map_filter (editr_entry g) (editr_records deck));
          s1 = snd (fold (load_editr_keyword g) (EDITNNCR_keywords deck) ([], s));
          u = std_unique equality (std_stable_sort c)
      in if EDITNNCR_keywords deck = [] then s
         else if c = [] then s1
         else s1\<lparr>m_edit := set_difference (m_edit s1) u, m_editr := u\<rparr>)"
  using fold_load_editr_keyword_fst [of g "EDITNNCR_keywords deck" "[]" s]
  by (simp add: load_editr_def Let_def editr_records_def)

lemma load_editr_input: "m_input (load_editr g deck s) = m_input s"
  using fold_load_editr_keyword_snd [of g "EDITNNCR_keywords deck" "([], s)"]
  by (simp add: load_editr_eq Let_def)

lemma load_editr_edit_subset: "set (m_edit (load_editr g deck s)) \<subseteq> set (m_edit s)"
  using fold_load_editr_keyword_snd [of g "EDITNNCR_keywords deck" "([], s)"]
    set_difference_subset [of "m_edit s"]
  by (simp add: load_editr_eq Let_def)

lemma load_editr_editr_subset:
  "m_editr s = [] \<Longrightarrow> set (m_editr (load_editr g deck s))
     \<subseteq> set (List.map_filter (editr_entry g) (editr_records deck))"
proof -
  assume e: "m_editr s = []"
  let ?c = "rev (List.map_filter (editr_entry g) (editr_records deck))"
  have "set (std_unique equality (std_stable_sort ?c)) \<subseteq> set (std_stable_sort ?c)"
    by (rule set_std_unique)
  then have "set (std_unique equality (std_stable_sort ?c))
      \<subseteq> set (List.map_filter (editr_entry g) (editr_records deck))"
    by (simp add: std_stable_sort_def)
  then show ?thesis
    using e fold_load_editr_keyword_snd [of g "EDITNNCR_keywords deck" "([], s)"]
    by (simp add: load_editr_eq Let_def)
qed

lemma load_editr_disjoint:
  assumes "m_editr s = []" "sorted_wrt (<) (map nnc_key (m_edit s))"
  shows "nnc_key ` set (m_edit (load_editr g deck s))
           \<inter> nnc_key ` set (m_editr (load_editr g deck s)) = {}"
proof -
  let ?c = "rev (List.map_filter (editr_entry g) (editr_records deck))"
  let ?u = "std_unique equality (std_stable_sort ?c)"
  let ?s1 = "snd (fold (load_editr_keyword g) (EDITNNCR_keywords deck) ([], s))"
  have s1: "m_edit ?s1 = m_edit s" "m_editr ?s1 = m_editr s"
    using fold_load_editr_keyword_snd [of g "EDITNNCR_keywords deck" "([], s)"] by simp_all
  have su: "sorted (map nnc_key ?u)"
    by (rule sorted_std_unique) (simp add: std_stable_sort_def)
  have "nnc_key ` set (set_difference (m_edit s) ?u) \<inter> nnc_key ` set ?u = {}"
    using set_difference_keys [OF assms(2) su] by blast
  then show ?thesis
    using assms(1) s1 by (simp add: load_editr_eq Let_def)
qed

lemma load_editr_filter:
  assumes "m_editr s = []"
  shows "filter (\<lambda>d. nnc_key d = K) (m_editr (load_editr g deck s))
           = take 1 (filter (\<lambda>d. nnc_key d = K)
                       (rev (List.map_filter (editr_entry g) (editr_records deck))))"
proof -
  let ?c = "rev (List.map_filter (editr_entry g) (editr_records deck))"
  let ?u = "std_unique equality (std_stable_sort ?c)"
  let ?s1 = "snd (fold (load_editr_keyword g) (EDITNNCR_keywords deck) ([], s))"
  have s1: "m_editr ?s1 = m_editr s"
    using fold_load_editr_keyword_snd [of g "EDITNNCR_keywords deck" "([], s)"] by simp
  have "filter (\<lambda>d. nnc_key d = K) ?u = take 1 (filter (\<lambda>d. nnc_key d = K) (std_stable_sort ?c))"
    by (rule filter_std_unique) (simp add: std_stable_sort_def)
  also have "filter (\<lambda>d. nnc_key d = K) (std_stable_sort ?c) = filter (\<lambda>d. nnc_key d = K) ?c"
    unfolding std_stable_sort_def by (rule sort_key_stable)
  finally have u: "filter (\<lambda>d. nnc_key d = K) ?u = take 1 (filter (\<lambda>d. nnc_key d = K) ?c)" .
  have none: "editr_records deck = []" if "EDITNNCR_keywords deck = []"
    using that by (simp add: editr_records_def)
  show ?thesis
  proof (cases "EDITNNCR_keywords deck = []")
    case True
    with none assms show ?thesis by (simp add: load_editr_eq Let_def List.map_filter_simps)
  next
    case False
    show ?thesis
    proof (cases "?c = []")
      case True
      with False assms s1 show ?thesis by (simp add: load_editr_eq Let_def)
    next
      case nonempty: False
      with False u show ?thesis by (simp add: load_editr_eq Let_def)
    qed
  qed
qed

lemma editr_entry_key:
  "editr_entry g r = Some d \<Longrightarrow> overlay_key g (nnc_key d)"
proof -
  assume "editr_entry g r = Some d"
  then obtain a b where ab: "make_index_pair g r = Some (a, b)" "\<not> is_neighbor g a b"
      "d = \<lparr>cell1 = a, cell2 = b, trans_v = item_SIDouble r\<rparr>"
    by (auto simp: editr_entry_def split: option.splits if_splits)
  then show ?thesis
    using make_index_pair_le [of g r a b] by (simp add: overlay_key_def nnc_key_def)
qed

lemma map_filter_editr_keys:
  "d \<in> set (List.map_filter (editr_entry g) rs) \<Longrightarrow> overlay_key g (nnc_key d)"
  by (auto simp: List.map_filter_def dest: editr_entry_key)

lemma filter_map_filter_editr:
  assumes "\<not> is_neighbor g (fst K) (snd K)"
  shows "filter (\<lambda>d. nnc_key d = K) (List.map_filter (editr_entry g) rs)
           = map (\<lambda>r. \<lparr>cell1 = fst K, cell2 = snd K, trans_v = item_SIDouble r\<rparr>)
               (filter (\<lambda>r. make_index_pair g r = Some K) rs)"
proof (induction rs)
  case Nil
  show ?case by (simp add: List.map_filter_simps)
next
  case (Cons r rs)
  show ?case
  proof (cases "make_index_pair g r")
    case None
    then show ?thesis using Cons.IH by (simp add: List.map_filter_simps editr_entry_def)
  next
    case (Some p)
    show ?thesis
    proof (cases "p = K")
      case True
      with Some assms Cons.IH show ?thesis
        by (cases K) (simp add: List.map_filter_simps editr_entry_def nnc_key_def)
    next
      case False
      with Some Cons.IH show ?thesis
        by (cases p) (auto simp: List.map_filter_simps editr_entry_def nnc_key_def)
    qed
  qed
qed

section \<open>Properties of addNNC\<close>

lemma addNNC_le:
  "c1 \<le> c2 \<Longrightarrow> addNNC c1 c2 tr s =
     (True, s\<lparr>m_input := take (lower_bound (m_input s) \<lparr>cell1 = c1, cell2 = c2, trans_v = tr\<rparr>) (m_input s)
        @ \<lparr>cell1 = c1, cell2 = c2, trans_v = tr\<rparr>
        # drop (lower_bound (m_input s) \<lparr>cell1 = c1, cell2 = c2, trans_v = tr\<rparr>) (m_input s)\<rparr>)"
  by (subst addNNC.simps) (auto simp: Let_def)

lemma addNNC_gt: "c2 < c1 \<Longrightarrow> addNNC c1 c2 tr s = addNNC c2 c1 tr s"
  by (subst addNNC.simps) simp

lemma addNNC_swap: "addNNC a b v s = addNNC b a v s"
proof (cases "a < b")
  case True
  then show ?thesis by (simp add: addNNC_gt [of a b])
next
  case False
  show ?thesis
  proof (cases "a = b")
    case True
    then show ?thesis by simp
  next
    case neq: False
    with False have "b < a" by simp
    then show ?thesis by (simp add: addNNC_gt [of b a])
  qed
qed

lemma addNNC_min_max: "addNNC a b v s = addNNC (min a b) (max a b) v s"
  using addNNC_swap [of a b v s] by (simp add: min_def max_def)

lemma min_le_max_cells: "min a b \<le> max (a :: size_t) b"
  by (rule order_trans [OF min.cobounded1 max.cobounded1])

text \<open>
  C9: for every state and all cells \<open>a\<close>, \<open>b\<close> and every value, \<open>addNNC(a, b, v)\<close> and
  \<open>addNNC(b, a, v)\<close> return the same flag and the same state, and the flag is true.
\<close>

theorem addNNC_order_independent:
  "addNNC a b v s = addNNC b a v s \<and> fst (addNNC a b v s) = True"
proof
  show "addNNC a b v s = addNNC b a v s" by (rule addNNC_swap)
  have "fst (addNNC (min a b) (max a b) v s) = True"
    using min_le_max_cells [of a b] by (simp add: addNNC_le)
  then show "fst (addNNC a b v s) = True"
    using addNNC_min_max [of a b v s] by simp
qed

text \<open>
  C10: a call of \<open>addNNC\<close> changes \<open>m_input\<close> only: \<open>m_edit\<close>, \<open>m_editr\<close> and the three
  location markers are the same before and after the call.
\<close>

theorem addNNC_frame:
  "m_edit (snd (addNNC a b v s)) = m_edit s
   \<and> m_editr (snd (addNNC a b v s)) = m_editr s
   \<and> m_nnc_location (snd (addNNC a b v s)) = m_nnc_location s
   \<and> m_edit_location (snd (addNNC a b v s)) = m_edit_location s
   \<and> m_editr_location (snd (addNNC a b v s)) = m_editr_location s"
proof -
  have "snd (addNNC (min a b) (max a b) v s)
          = s\<lparr>m_input := m_input (snd (addNNC (min a b) (max a b) v s))\<rparr>"
    using min_le_max_cells [of a b] by (simp add: addNNC_le)
  then have "snd (addNNC a b v s) = s\<lparr>m_input := m_input (snd (addNNC a b v s))\<rparr>"
    using addNNC_min_max [of a b v s] by simp
  then show ?thesis
    by (metis NNC.select_convs NNC.surjective NNC.update_convs(1))
qed

section \<open>The constructed state\<close>

lemma addNNC_result:
  "addNNC a b v s =
     (True, s\<lparr>m_input :=
        take (lower_bound (m_input s) \<lparr>cell1 = min a b, cell2 = max a b, trans_v = v\<rparr>) (m_input s)
        @ \<lparr>cell1 = min a b, cell2 = max a b, trans_v = v\<rparr>
        # drop (lower_bound (m_input s) \<lparr>cell1 = min a b, cell2 = max a b, trans_v = v\<rparr>) (m_input s)\<rparr>)"
  using addNNC_min_max [of a b v s] min_le_max_cells [of a b] by (simp add: addNNC_le)

lemma is_neighbor_iff:
  "is_neighbor grid g1 g2 \<longleftrightarrow> g2 - g1 \<in> {0, 1, getNX grid, getNY grid}"
  by (auto simp: is_neighbor_def Let_def)

lemma overlay_key_strict: "overlay_key g (nnc_key d) \<Longrightarrow> cell1 d < cell2 d"
proof -
  assume o: "overlay_key g (nnc_key d)"
  then have le: "cell1 d \<le> cell2 d" and nn: "\<not> is_neighbor g (cell1 d) (cell2 d)"
    by (simp_all add: overlay_key_def nnc_key_def)
  from nn have "cell1 d \<noteq> cell2 d" by (auto simp: is_neighbor_def Let_def)
  with le show ?thesis by simp
qed

text \<open>The state before the replacement loader runs.\<close>

lemma before_editr:
  "m_editr (load_edit g deck (load_input g deck NNC_default)) = []"
  "sorted_wrt (<) (map nnc_key (m_edit (load_edit g deck (load_input g deck NNC_default))))"
  "nnc_key ` set (m_edit (load_edit g deck (load_input g deck NNC_default)))
     \<subseteq> nnc_key ` set (surviving_edits g deck)"
  "map nnc_key (m_input (load_edit g deck (load_input g deck NNC_default)))
     = map nnc_key (m_input (load_input g deck NNC_default))"
proof -
  let ?s1 = "load_input g deck NNC_default"
  have e1: "m_edit ?s1 = []" and r1: "m_editr ?s1 = []"
    by (simp_all add: load_input_props NNC_default_def)
  show "m_editr (load_edit g deck ?s1) = []" by (simp add: load_edit_props r1)
  show "sorted_wrt (<) (map nnc_key (m_edit (load_edit g deck ?s1)))"
    using e1 by (rule load_edit_props(4))
  show "nnc_key ` set (m_edit (load_edit g deck ?s1)) \<subseteq> nnc_key ` set (surviving_edits g deck)"
    using load_edit_props(3) [of g deck ?s1] by (simp add: e1)
  show "map nnc_key (m_input (load_edit g deck ?s1)) = map nnc_key (m_input ?s1)"
    by (rule load_edit_props(1))
qed

lemma ctor_overlay_keys:
  assumes "d \<in> set (m_edit (NNC_ctor g deck)) \<union> set (m_editr (NNC_ctor g deck))"
  shows "overlay_key g (nnc_key d)"
proof -
  let ?s2 = "load_edit g deck (load_input g deck NNC_default)"
  from assms show ?thesis
  proof
    assume "d \<in> set (m_edit (NNC_ctor g deck))"
    then have "d \<in> set (m_edit ?s2)"
      using load_editr_edit_subset [of g deck ?s2] by (auto simp: NNC_ctor_def)
    then have "nnc_key d \<in> nnc_key ` set (surviving_edits g deck)"
      using before_editr(3) [of g deck] by blast
    then obtain e where "e \<in> set (surviving_edits g deck)" "nnc_key d = nnc_key e" by auto
    then show ?thesis
      using surviving_edits_keys [of g deck] by (auto simp: list_all_iff)
  next
    assume "d \<in> set (m_editr (NNC_ctor g deck))"
    then have "d \<in> set (List.map_filter (editr_entry g) (editr_records deck))"
      using load_editr_editr_subset [OF before_editr(1), of g deck g deck]
      by (auto simp: NNC_ctor_def)
    then show ?thesis by (rule map_filter_editr_keys)
  qed
qed

lemma ctor_input_sorted: "sorted (map nnc_key (m_input (NNC_ctor g deck)))"
  by (simp add: NNC_ctor_def load_editr_input before_editr(4) load_input_props(3))

lemma list_all_keys:
  "list_all (\<lambda>d. cell1 d \<le> cell2 d) xs \<longleftrightarrow> list_all (\<lambda>k. fst k \<le> snd k) (map nnc_key xs)"
  by (simp add: list_all_iff nnc_key_def)

lemma ctor_input_ordered: "list_all (\<lambda>d. cell1 d \<le> cell2 d) (m_input (NNC_ctor g deck))"
proof -
  have "list_all (\<lambda>d. cell1 d \<le> cell2 d) (m_input (load_input g deck NNC_default))"
    by (rule load_input_props(4)) (simp add: NNC_default_def)
  then show ?thesis
    unfolding list_all_keys by (simp add: NNC_ctor_def load_editr_input before_editr(4))
qed

section \<open>Properties of the constructed state\<close>

text \<open>
  C1: after the construction no key of \<open>m_editr\<close> is the key of an entry of \<open>m_edit\<close>.
  The keys are compared, not the values: the two sets of keys are disjoint.
\<close>

theorem replacement_purges_multiplier:
  "nnc_key ` set (m_edit (NNC_ctor grid deck)) \<inter> nnc_key ` set (m_editr (NNC_ctor grid deck)) = {}"
  unfolding NNC_ctor_def
  by (rule load_editr_disjoint [OF before_editr(1) before_editr(2)])

text \<open>
  C2: a key of \<open>m_input\<close> is not the key of an entry of \<open>m_edit\<close>. The code breaks
  this: with one connection for the cells 0 and 8 and two multipliers for it, the first
  multiplier moves the cursor to the end of \<open>m_input\<close>, and the second one is then put
  into \<open>m_edit\<close> instead of being applied.
\<close>

theorem edit_overlaid_beside_connection:
  "m_input (NNC_ctor grid331 deck_two_edits) = [\<lparr>cell1 = 0, cell2 = 8, trans_v = 10\<rparr>]
   \<and> m_edit (NNC_ctor grid331 deck_two_edits) = [\<lparr>cell1 = 0, cell2 = 8, trans_v = 3\<rparr>]"
  by code_simp

text \<open>
  C3, as amended: after the construction and after every \<open>addNNC\<close>, the keys of
  \<open>m_input\<close> have their first cell at most the second, and the keys of \<open>m_edit\<close> and
  \<open>m_editr\<close> have their first cell strictly below the second.
\<close>

theorem stored_keys_ordered:
  "keys_ordered (NNC_ctor grid deck)
   \<and> (keys_ordered s \<longrightarrow> keys_ordered (snd (addNNC a b v s)))"
proof
  have "list_all (\<lambda>d. cell1 d < cell2 d) (m_edit (NNC_ctor grid deck))"
    using ctor_overlay_keys [of _ grid deck] by (auto simp: list_all_iff intro: overlay_key_strict)
  moreover have "list_all (\<lambda>d. cell1 d < cell2 d) (m_editr (NNC_ctor grid deck))"
    using ctor_overlay_keys [of _ grid deck] by (auto simp: list_all_iff intro: overlay_key_strict)
  ultimately show "keys_ordered (NNC_ctor grid deck)"
    using ctor_input_ordered [of grid deck] by (simp add: keys_ordered_def)
  show "keys_ordered s \<longrightarrow> keys_ordered (snd (addNNC a b v s))"
  proof
    assume k: "keys_ordered s"
    then show "keys_ordered (snd (addNNC a b v s))"
      using min_le_max_cells [of a b]
      by (auto simp: keys_ordered_def addNNC_result list_all_iff
          dest: in_set_takeD in_set_dropD)
  qed
qed

theorem stored_keys_ordered_witness:
  "keys_ordered (NNC_ctor grid331 deck_mixed)
   \<and> keys_ordered (snd (addNNC 8 0 3 (NNC_ctor grid331 deck_mixed)))"
  using stored_keys_ordered [of grid331 deck_mixed "NNC_ctor grid331 deck_mixed" 8 0 3] by blast

text \<open>
  C3 as stated fails: a base record whose two triples address the same cell, and
  \<open>addNNC\<close> with two equal cells, store a self-pair in \<open>m_input\<close>.
\<close>

theorem self_pair_stored:
  "\<not> keys_strict (NNC_ctor grid331 deck_self_pair)
   \<and> keys_strict NNC_default \<and> \<not> keys_strict (snd (addNNC 3 3 1 NNC_default))"
  by code_simp

text \<open>
  C7: after the construction every entry of \<open>m_edit\<close> and of \<open>m_editr\<close> has its cells
  in order and their difference is none of 0, 1, the X extent and the Y extent; and
  \<open>is_neighbor\<close> is true exactly for these four differences.
\<close>

theorem overlays_hold_no_neighbors:
  "(\<forall>d \<in> set (m_edit (NNC_ctor grid deck)) \<union> set (m_editr (NNC_ctor grid deck)).
       cell1 d \<le> cell2 d \<and> cell2 d - cell1 d \<notin> {0, 1, getNX grid, getNY grid})
   \<and> (is_neighbor grid g1 g2 \<longleftrightarrow> g2 - g1 \<in> {0, 1, getNX grid, getNY grid})"
proof
  show "\<forall>d \<in> set (m_edit (NNC_ctor grid deck)) \<union> set (m_editr (NNC_ctor grid deck)).
       cell1 d \<le> cell2 d \<and> cell2 d - cell1 d \<notin> {0, 1, getNX grid, getNY grid}"
  proof
    fix d assume "d \<in> set (m_edit (NNC_ctor grid deck)) \<union> set (m_editr (NNC_ctor grid deck))"
    then have "overlay_key grid (nnc_key d)" by (rule ctor_overlay_keys)
    then show "cell1 d \<le> cell2 d \<and> cell2 d - cell1 d \<notin> {0, 1, getNX grid, getNY grid}"
      by (simp add: overlay_key_def nnc_key_def is_neighbor_iff)
  qed
  show "is_neighbor grid g1 g2 \<longleftrightarrow> g2 - g1 \<in> {0, 1, getNX grid, getNY grid}"
    by (rule is_neighbor_iff)
qed

theorem overlays_hold_no_neighbors_witness:
  "\<lparr>cell1 = 0, cell2 = 5, trans_v = 13\<rparr> \<in> set (m_editr (NNC_ctor grid331 deck_mixed))
   \<and> (5 :: size_t) - 0 \<notin> {0, 1, getNX grid331, getNY grid331}
   \<and> \<lparr>cell1 = 2, cell2 = 7, trans_v = 3\<rparr> \<in> set (m_edit (NNC_ctor grid331 deck_mixed))
   \<and> (7 :: size_t) - 2 \<notin> {0, 1, getNX grid331, getNY grid331}"
proof -
  have r: "\<lparr>cell1 = 0, cell2 = 5, trans_v = 13\<rparr> \<in> set (m_editr (NNC_ctor grid331 deck_mixed))"
    by code_simp
  have e: "\<lparr>cell1 = 2, cell2 = 7, trans_v = 3\<rparr> \<in> set (m_edit (NNC_ctor grid331 deck_mixed))"
    by code_simp
  from r e show ?thesis
    using overlays_hold_no_neighbors [of grid331 deck_mixed] by fastforce
qed

text \<open>
  C8: after the construction \<open>m_input\<close> is ascending by key; \<open>addNNC\<close> keeps it so, and
  it puts the new entry at the lower bound of its key.
\<close>

theorem connections_stay_sorted:
  "input_sorted (NNC_ctor grid deck)
   \<and> (input_sorted s \<longrightarrow> input_sorted (snd (addNNC a b v s)))
   \<and> m_input (snd (addNNC a b v s)) =
       take (lower_bound (m_input s) \<lparr>cell1 = min a b, cell2 = max a b, trans_v = v\<rparr>) (m_input s)
       @ \<lparr>cell1 = min a b, cell2 = max a b, trans_v = v\<rparr>
       # drop (lower_bound (m_input s) \<lparr>cell1 = min a b, cell2 = max a b, trans_v = v\<rparr>) (m_input s)"
proof (intro conjI impI)
  show "input_sorted (NNC_ctor grid deck)"
    by (simp add: input_sorted_def ctor_input_sorted)
  show "input_sorted (snd (addNNC a b v s))" if "input_sorted s"
    using that sorted_insert_lower_bound [of "m_input s"]
    by (simp add: input_sorted_def addNNC_result)
  show "m_input (snd (addNNC a b v s)) =
       take (lower_bound (m_input s) \<lparr>cell1 = min a b, cell2 = max a b, trans_v = v\<rparr>) (m_input s)
       @ \<lparr>cell1 = min a b, cell2 = max a b, trans_v = v\<rparr>
       # drop (lower_bound (m_input s) \<lparr>cell1 = min a b, cell2 = max a b, trans_v = v\<rparr>) (m_input s)"
    by (simp add: addNNC_result)
qed

theorem connections_stay_sorted_witness:
  "input_sorted (NNC_ctor grid331 deck_mixed)
   \<and> input_sorted (snd (addNNC 8 0 3 (NNC_ctor grid331 deck_mixed)))"
proof -
  have h: "input_sorted (NNC_ctor grid331 deck_mixed)" by code_simp
  with connections_stay_sorted [of grid331 deck_mixed "NNC_ctor grid331 deck_mixed" 8 0 3]
  show ?thesis by blast
qed

section \<open>The index resolver\<close>

lemma scast_zero_based: "(scast (x - 1) :: size_t) = word_of_int (zero_based x)"
  unfolding zero_based_def by (rule scast_eq)

lemma extent_le_scast:
  "uint N \<le> 2 ^ 64 - 2 ^ 31
   \<Longrightarrow> N \<le> (word_of_int (zero_based x) :: size_t)
         \<longleftrightarrow> \<not> (0 \<le> zero_based x \<and> zero_based x < uint N)"
  unfolding scast_zero_based [symmetric] unfolding zero_based_def by (rule scast_ge_extent)

lemma global_index_eq:
  assumes "extents_fit g"
  shows "global_index g r off =
           (if in_bounds g r off \<and> addressed_active g r off
            then Some (addressed_index g r off) else None)"
proof -
  have x: "uint (getNX g) \<le> 2 ^ 64 - 2 ^ 31" and y: "uint (getNY g) \<le> 2 ^ 64 - 2 ^ 31"
    and z: "uint (getNZ g) \<le> 2 ^ 64 - 2 ^ 31"
    using assms by (simp_all add: extents_fit_def)
  show ?thesis
    unfolding global_index_def Let_def scast_zero_based extent_le_scast [OF x]
      extent_le_scast [OF y] extent_le_scast [OF z] in_bounds_def addressed_active_def
      addressed_index_def
    by (simp only: if_not_P if_P split: if_splits) blast
qed

text \<open>
  C6: on a grid whose extents leave room for the sign extension, \<open>make_index_pair\<close>
  returns nothing exactly when a 0-based coordinate of one of the two triples is outside
  its extent or an addressed cell is inactive; the three loaders then leave their state
  as it is; and when it returns a pair, this is the smaller global index followed by the
  larger one.
\<close>

theorem index_resolver:
  "extents_fit grid \<Longrightarrow>
     (make_index_pair grid r = None \<longleftrightarrow>
        \<not> (in_bounds grid r 0 \<and> addressed_active grid r 0
           \<and> in_bounds grid r 3 \<and> addressed_active grid r 3))
     \<and> (make_index_pair grid r = None \<longrightarrow>
          load_input_record grid r s = s \<and> load_edit_record grid r es = es
          \<and> load_editr_record grid r es = es)
     \<and> (make_index_pair grid r \<noteq> None \<longrightarrow>
          make_index_pair grid r =
            Some (min (addressed_index grid r 0) (addressed_index grid r 3),
                  max (addressed_index grid r 0) (addressed_index grid r 3)))"
proof (intro conjI impI)
  assume fit: "extents_fit grid"
  show "make_index_pair grid r = None \<longleftrightarrow>
        \<not> (in_bounds grid r 0 \<and> addressed_active grid r 0
           \<and> in_bounds grid r 3 \<and> addressed_active grid r 3)"
    by (auto simp: make_index_pair_def global_index_eq [OF fit])
  show "make_index_pair grid r =
            Some (min (addressed_index grid r 0) (addressed_index grid r 3),
                  max (addressed_index grid r 0) (addressed_index grid r 3))"
    if "make_index_pair grid r \<noteq> None"
    using that
    by (auto simp: make_index_pair_def global_index_eq [OF fit] min_def max_def
        split: if_splits)
next
  assume "make_index_pair grid r = None"
  then show "load_input_record grid r s = s" "load_edit_record grid r es = es"
      "load_editr_record grid r es = es"
    by (simp_all add: load_input_record_def load_edit_record_def load_editr_record_def Let_def)
qed

theorem index_resolver_witness:
  "extents_fit grid331
   \<and> make_index_pair grid331 (deck_record [3,3,1,1,1,1] 4) = Some (0, 8)
   \<and> \<not> in_bounds grid331 (deck_record [4,1,1,1,1,1] 1) 0
   \<and> make_index_pair grid331 (deck_record [4,1,1,1,1,1] 1) = None
   \<and> \<not> in_bounds grid331 (deck_record [1,1,1,1,0,1] 1) 3
   \<and> make_index_pair grid331 (deck_record [1,1,1,1,0,1] 1) = None"
proof -
  have fit: "extents_fit grid331" by (simp add: extents_fit_def grid331_def)
  have a: "in_bounds grid331 (deck_record [3,3,1,1,1,1] 4) 0"
      "in_bounds grid331 (deck_record [3,3,1,1,1,1] 4) 3"
      "addressed_index grid331 (deck_record [3,3,1,1,1,1] 4) 0 = 8"
      "addressed_index grid331 (deck_record [3,3,1,1,1,1] 4) 3 = 0"
    by (simp_all add: in_bounds_def zero_based_def addressed_index_def grid331_def deck_record_def)
  have act: "addressed_active grid331 r n" for r n
    by (simp add: addressed_active_def grid331_def)
  have b: "\<not> in_bounds grid331 (deck_record [4,1,1,1,1,1] 1) 0"
    by (simp add: in_bounds_def zero_based_def grid331_def deck_record_def)
  have c: "\<not> in_bounds grid331 (deck_record [1,1,1,1,0,1] 1) 3"
    by (simp add: in_bounds_def zero_based_def grid331_def deck_record_def)
  from fit a act b c show ?thesis
    using index_resolver [OF fit, of "deck_record [3,3,1,1,1,1] 4"]
      index_resolver [OF fit, of "deck_record [4,1,1,1,1,1] 1"]
      index_resolver [OF fit, of "deck_record [1,1,1,1,0,1] 1"]
    by (auto simp: min_def max_def)
qed

section \<open>The last replacement wins\<close>

lemma take_1_rev: "xs \<noteq> [] \<Longrightarrow> take 1 (rev xs) = [last xs]"
  by (cases xs rule: rev_cases) auto

text \<open>
  C4, as amended: for a key that is not classified adjacent and has EDITNNCR records,
  \<open>m_editr\<close> has exactly one entry after the construction, and its value is the value
  of the last of these records in the order of the deck, whatever records of other keys
  stand between them and whichever keyword they are in.
\<close>

theorem last_replacement_wins:
  "editr_records_for grid deck K \<noteq> [] \<Longrightarrow> \<not> is_neighbor grid (fst K) (snd K) \<Longrightarrow>
     entries_for K (m_editr (NNC_ctor grid deck)) =
       [\<lparr>cell1 = fst K, cell2 = snd K,
         trans_v = item_SIDouble (last (editr_records_for grid deck K))\<rparr>]"
proof -
  assume ne: "editr_records_for grid deck K \<noteq> []" and nn: "\<not> is_neighbor grid (fst K) (snd K)"
  let ?mk = "\<lambda>r. \<lparr>cell1 = fst K, cell2 = snd K, trans_v = item_SIDouble r\<rparr>"
  let ?ks = "editr_records_for grid deck K"
  have "entries_for K (m_editr (NNC_ctor grid deck))
          = take 1 (filter (\<lambda>d. nnc_key d = K)
              (rev (List.map_filter (editr_entry grid) (editr_records deck))))"
    unfolding entries_for_def NNC_ctor_def
    by (rule load_editr_filter [OF before_editr(1)])
  also have "\<dots> = take 1 (rev (map ?mk ?ks))"
    by (simp add: rev_filter [symmetric] filter_map_filter_editr [OF nn] editr_records_for_def)
  also have "\<dots> = [last (map ?mk ?ks)]"
    using ne by (intro take_1_rev) simp
  also have "\<dots> = [?mk (last ?ks)]"
    using ne by (simp add: last_map)
  finally show ?thesis .
qed

theorem last_replacement_wins_witness:
  "map item_SIDouble (editr_records_for grid331 deck_mixed (0, 5)) = [10, 12, 13]
   \<and> \<not> is_neighbor grid331 0 5
   \<and> entries_for (0, 5) (m_editr (NNC_ctor grid331 deck_mixed))
       = [\<lparr>cell1 = 0, cell2 = 5, trans_v = 13\<rparr>]"
proof -
  have recs: "map item_SIDouble (editr_records_for grid331 deck_mixed (0, 5)) = [10, 12, 13]"
    by code_simp
  then have ne: "editr_records_for grid331 deck_mixed (0, 5) \<noteq> []" by auto
  have nn: "\<not> is_neighbor grid331 (fst (0, 5)) (snd (0, 5))" by code_simp
  have "last (map item_SIDouble (editr_records_for grid331 deck_mixed (0, 5))) = 13"
    by (simp only: recs) simp
  then have l: "item_SIDouble (last (editr_records_for grid331 deck_mixed (0, 5))) = 13"
    using ne by (simp add: last_map)
  from last_replacement_wins [OF ne nn] l recs nn show ?thesis by simp
qed

text \<open>
  C4 as stated fails for a key that is classified adjacent: its records are dropped and
  \<open>m_editr\<close> has no entry for it.
\<close>

theorem adjacent_replacement_dropped:
  "editr_records_for grid331 deck_adjacent_editr (0, 1) \<noteq> []
   \<and> entries_for (0, 1) (m_editr (NNC_ctor grid331 deck_adjacent_editr)) = []"
  by code_simp

section \<open>One edit for a key with connections\<close>

subsection \<open>What the inner loop does\<close>

lemma scale_run_step:
  "cur < length inp \<Longrightarrow> nnc_key (inp ! cur) = nnc_key e
   \<Longrightarrow> scale_run e inp cur p
         = scale_run e (inp[cur := (inp ! cur)\<lparr>trans_v := trans_v (inp ! cur) * trans_v e\<rparr>])
             (Suc cur) True"
  by (subst scale_run.simps) (simp add: nnc_key_eq_iff)

lemma scale_run_stop:
  "\<not> (cur < length inp \<and> nnc_key (inp ! cur) = nnc_key e)
   \<Longrightarrow> scale_run e inp cur p = (inp, cur, p)"
  by (subst scale_run.simps) (auto simp: nnc_key_eq_iff)

lemma scale_run_cursor:
  "cur \<le> fst (snd (scale_run e inp cur p))
   \<and> (cur \<le> length inp \<longrightarrow> fst (snd (scale_run e inp cur p)) \<le> length inp)"
proof (induction e inp cur p rule: scale_run.induct)
  case (1 e inp cur p)
  show ?case
  proof (cases "cur < length inp \<and> nnc_key (inp ! cur) = nnc_key e")
    case True
    with "1" show ?thesis by (simp add: scale_run_step nnc_key_eq_iff)
  next
    case False
    show ?thesis by (simp add: scale_run_stop [OF False])
  qed
qed

lemma scale_run_outside:
  "i < cur \<or> fst (snd (scale_run e inp cur p)) \<le> i
   \<Longrightarrow> fst (scale_run e inp cur p) ! i = inp ! i"
proof (induction e inp cur p rule: scale_run.induct)
  case (1 e inp cur p)
  show ?case
  proof (cases "cur < length inp \<and> nnc_key (inp ! cur) = nnc_key e")
    case True
    let ?inp1 = "inp[cur := (inp ! cur)\<lparr>trans_v := trans_v (inp ! cur) * trans_v e\<rparr>]"
    have eq: "scale_run e inp cur p = scale_run e ?inp1 (Suc cur) True"
      using True by (simp add: scale_run_step)
    have ge: "Suc cur \<le> fst (snd (scale_run e ?inp1 (Suc cur) True))"
      using scale_run_cursor [of "Suc cur" e ?inp1 True] by simp
    from "1.prems" eq ge have ne: "i \<noteq> cur" by auto
    from "1.prems" eq have "i < Suc cur \<or> fst (snd (scale_run e ?inp1 (Suc cur) True)) \<le> i"
      by auto
    with "1.IH" True have "fst (scale_run e ?inp1 (Suc cur) True) ! i = ?inp1 ! i"
      by (simp add: nnc_key_eq_iff)
    with ne eq show ?thesis by simp
  next
    case False
    show ?thesis by (simp add: scale_run_stop [OF False])
  qed
qed

lemma scale_run_inside:
  "cur \<le> i \<Longrightarrow> i < fst (snd (scale_run e inp cur p))
   \<Longrightarrow> nnc_key (inp ! i) = nnc_key e
       \<and> fst (scale_run e inp cur p) ! i = scaled (trans_v e) (inp ! i)"
proof (induction e inp cur p rule: scale_run.induct)
  case (1 e inp cur p)
  show ?case
  proof (cases "cur < length inp \<and> nnc_key (inp ! cur) = nnc_key e")
    case True
    let ?inp1 = "inp[cur := (inp ! cur)\<lparr>trans_v := trans_v (inp ! cur) * trans_v e\<rparr>]"
    have eq: "scale_run e inp cur p = scale_run e ?inp1 (Suc cur) True"
      using True by (simp add: scale_run_step)
    show ?thesis
    proof (cases "i = cur")
      case ic: True
      have "fst (scale_run e ?inp1 (Suc cur) True) ! cur = ?inp1 ! cur"
        by (rule scale_run_outside) simp
      with True ic eq show ?thesis by (simp add: scaled_def)
    next
      case False
      with "1.prems" have "Suc cur \<le> i" by simp
      moreover have "i < fst (snd (scale_run e ?inp1 (Suc cur) True))"
        using "1.prems"(2) eq by simp
      ultimately have "nnc_key (?inp1 ! i) = nnc_key e
          \<and> fst (scale_run e ?inp1 (Suc cur) True) ! i = scaled (trans_v e) (?inp1 ! i)"
        using "1.IH" True by (simp add: nnc_key_eq_iff)
      with False eq show ?thesis by simp
    qed
  next
    case False
    from "1.prems" show ?thesis using False by (simp add: scale_run_stop [OF False])
  qed
qed

lemma scale_run_end:
  "fst (snd (scale_run e inp cur p)) < length inp
   \<Longrightarrow> nnc_key (inp ! fst (snd (scale_run e inp cur p))) \<noteq> nnc_key e"
proof (induction e inp cur p rule: scale_run.induct)
  case (1 e inp cur p)
  show ?case
  proof (cases "cur < length inp \<and> nnc_key (inp ! cur) = nnc_key e")
    case True
    let ?inp1 = "inp[cur := (inp ! cur)\<lparr>trans_v := trans_v (inp ! cur) * trans_v e\<rparr>]"
    let ?c = "fst (snd (scale_run e ?inp1 (Suc cur) True))"
    have eq: "scale_run e inp cur p = scale_run e ?inp1 (Suc cur) True"
      using True by (simp add: scale_run_step)
    have ge: "Suc cur \<le> ?c"
      using scale_run_cursor [of "Suc cur" e ?inp1 True] by simp
    from "1.prems" eq have "?c < length ?inp1" by simp
    with "1.IH" True have "nnc_key (?inp1 ! ?c) \<noteq> nnc_key e"
      by (simp add: nnc_key_eq_iff)
    moreover from ge have "?inp1 ! ?c = inp ! ?c" by simp
    ultimately show ?thesis using eq by simp
  next
    case False
    from "1.prems" show ?thesis using False by (simp add: scale_run_stop [OF False])
  qed
qed

lemma scale_run_processed:
  "snd (snd (scale_run e inp cur p)) = (p \<or> cur < fst (snd (scale_run e inp cur p)))"
proof (induction e inp cur p rule: scale_run.induct)
  case (1 e inp cur p)
  show ?case
  proof (cases "cur < length inp \<and> nnc_key (inp ! cur) = nnc_key e")
    case True
    let ?inp1 = "inp[cur := (inp ! cur)\<lparr>trans_v := trans_v (inp ! cur) * trans_v e\<rparr>]"
    have eq: "scale_run e inp cur p = scale_run e ?inp1 (Suc cur) True"
      using True by (simp add: scale_run_step)
    have ge: "Suc cur \<le> fst (snd (scale_run e ?inp1 (Suc cur) True))"
      using scale_run_cursor [of "Suc cur" e ?inp1 True] by simp
    from "1.IH" True have "snd (snd (scale_run e ?inp1 (Suc cur) True))"
      by (simp add: nnc_key_eq_iff)
    with eq ge show ?thesis by simp
  next
    case False
    show ?thesis by (simp add: scale_run_stop [OF False])
  qed
qed

lemma scale_run_other_key:
  "nnc_key (inp ! i) \<noteq> nnc_key e \<Longrightarrow> fst (scale_run e inp cur p) ! i = inp ! i"
  using scale_run_inside [of cur i e inp p] scale_run_outside [of i cur e inp p]
  by (cases "cur \<le> i \<and> i < fst (snd (scale_run e inp cur p))") auto

subsection \<open>One round of the merge, by cases\<close>

lemma lower_bound_key:
  "lower_bound inp \<lparr>cell1 = cell1 e, cell2 = cell2 e, trans_v = t\<rparr>
     = length (takeWhile (\<lambda>d. nnc_key d < nnc_key e) inp)"
  by (simp add: lower_bound_def nnc_less_def nnc_key_def)

lemma lower_bound_le: "length (takeWhile P xs) \<le> length xs"
  by (rule length_takeWhile_le)

lemma takeWhile_before: "i < length (takeWhile P xs) \<Longrightarrow> P (xs ! i)"
  by (metis nth_mem set_takeWhileD takeWhile_nth)

lemma merge_edit_at_end:
  "snd st = length (m_input (fst st)) \<Longrightarrow> merge_edit e st = (add_edit e (fst st), snd st)"
  by (simp add: merge_edit_def Let_def)

lemma merge_edit_seek_end:
  "snd st \<noteq> length (m_input (fst st)) \<Longrightarrow> nnc_key (m_input (fst st) ! snd st) \<noteq> nnc_key e
   \<Longrightarrow> seek e (m_input (fst st)) (snd st) = length (m_input (fst st))
   \<Longrightarrow> merge_edit e st = (add_edit e (fst st), length (m_input (fst st)))"
  by (auto simp: merge_edit_def Let_def seek_def lower_bound_key nnc_key_eq_iff)

lemma merge_edit_run:
  assumes "snd st \<noteq> length (m_input (fst st))"
    and "nnc_key (m_input (fst st) ! snd st) = nnc_key e
         \<or> seek e (m_input (fst st)) (snd st) \<noteq> length (m_input (fst st))"
  shows "merge_edit e st =
     (if \<not> snd (snd (scale_run e (m_input (fst st)) (seek e (m_input (fst st)) (snd st)) False))
      then add_edit e ((fst st)\<lparr>m_input :=
             fst (scale_run e (m_input (fst st)) (seek e (m_input (fst st)) (snd st)) False)\<rparr>)
      else (fst st)\<lparr>m_input :=
             fst (scale_run e (m_input (fst st)) (seek e (m_input (fst st)) (snd st)) False)\<rparr>,
      fst (snd (scale_run e (m_input (fst st)) (seek e (m_input (fst st)) (snd st)) False)))"
proof (cases "nnc_key (m_input (fst st) ! snd st) = nnc_key e")
  case True
  then have sk: "seek e (m_input (fst st)) (snd st) = snd st" by (simp add: seek_def)
  obtain inp cur p where r: "scale_run e (m_input (fst st)) (snd st) False = (inp, cur, p)"
    by (cases "scale_run e (m_input (fst st)) (snd st) False") auto
  from True assms(1) show ?thesis
    unfolding sk by (simp add: merge_edit_def Let_def nnc_key_eq_iff r)
next
  case False
  let ?lb = "length (takeWhile (\<lambda>d. nnc_key d < nnc_key e) (m_input (fst st)))"
  from False have sk: "seek e (m_input (fst st)) (snd st) = ?lb" by (simp add: seek_def)
  from False assms(2) sk have nl: "?lb \<noteq> length (m_input (fst st))" by simp
  obtain inp cur p where r: "scale_run e (m_input (fst st)) ?lb False = (inp, cur, p)"
    by (cases "scale_run e (m_input (fst st)) ?lb False") auto
  from False assms(1) nl show ?thesis
    unfolding sk by (auto simp: merge_edit_def Let_def nnc_key_eq_iff lower_bound_key r)
qed

lemma seek_props:
  assumes "cur \<le> length inp" "\<forall>i < cur. nnc_key (inp ! i) < K" "nnc_key e \<le> K"
  shows "seek e inp cur \<le> length inp"
    and "\<forall>i < seek e inp cur. nnc_key (inp ! i) < K"
proof -
  show "seek e inp cur \<le> length inp"
    using assms(1) by (simp add: seek_def lower_bound_le)
  show "\<forall>i < seek e inp cur. nnc_key (inp ! i) < K"
  proof (intro allI impI)
    fix i assume i: "i < seek e inp cur"
    show "nnc_key (inp ! i) < K"
    proof (cases "nnc_key (inp ! cur) \<noteq> nnc_key e")
      case True
      with i have "i < length (takeWhile (\<lambda>d. nnc_key d < nnc_key e) inp)"
        by (simp add: seek_def)
      then have "nnc_key (inp ! i) < nnc_key e" by (rule takeWhile_before)
      with assms(3) show ?thesis by simp
    next
      case False
      with i have "i < cur" by (simp add: seek_def)
      with assms(2) show ?thesis by simp
    qed
  qed
qed

lemma map_key_nth:
  "map nnc_key xs = map nnc_key ys \<Longrightarrow> i < length ys \<Longrightarrow> nnc_key (xs ! i) = nnc_key (ys ! i)"
  by (metis length_map nth_map)

lemma merge_edit_length:
  "length (m_input (fst (merge_edit e st))) = length (m_input (fst st))"
  using merge_edit_frame(1) [of e st] by (metis length_map)

lemma merge_edit_key_nth:
  "i < length (m_input (fst st))
   \<Longrightarrow> nnc_key (m_input (fst (merge_edit e st)) ! i) = nnc_key (m_input (fst st) ! i)"
  using merge_edit_frame(1) [of e st] by (rule map_key_nth)

text \<open>An edit with another key leaves the entries of the key alone.\<close>

lemma merge_edit_other_key:
  assumes "nnc_key e \<noteq> K" "nnc_key (m_input (fst st) ! i) = K"
  shows "m_input (fst (merge_edit e st)) ! i = m_input (fst st) ! i"
proof -
  from assms have ne: "nnc_key (m_input (fst st) ! i) \<noteq> nnc_key e" by simp
  from merge_edit_cases [of e st] show ?thesis
  proof (elim disjE exE)
    fix cur' assume "merge_edit e st = (add_edit e (fst st), cur')"
    then show ?thesis by (simp add: add_edit_frame)
  next
    fix sought
    assume "merge_edit e st =
         (if \<not> snd (snd (scale_run e (m_input (fst st)) sought False))
          then add_edit e ((fst st)\<lparr>m_input := fst (scale_run e (m_input (fst st)) sought False)\<rparr>)
          else (fst st)\<lparr>m_input := fst (scale_run e (m_input (fst st)) sought False)\<rparr>,
          fst (snd (scale_run e (m_input (fst st)) sought False)))"
    then have "m_input (fst (merge_edit e st)) = fst (scale_run e (m_input (fst st)) sought False)"
      by (simp add: add_edit_frame)
    with scale_run_other_key [OF ne] show ?thesis by simp
  qed
qed

lemma fold_merge_edit_other_keys:
  "(\<forall>e \<in> set es. nnc_key e \<noteq> K) \<Longrightarrow> i < length (m_input (fst st))
   \<Longrightarrow> nnc_key (m_input (fst st) ! i) = K
   \<Longrightarrow> m_input (fst (fold merge_edit es st)) ! i = m_input (fst st) ! i"
proof (induction es arbitrary: st)
  case Nil
  show ?case by simp
next
  case (Cons e es)
  have ne: "nnc_key e \<noteq> K" and rest: "\<forall>e \<in> set es. nnc_key e \<noteq> K"
    using Cons.prems(1) by simp_all
  have same: "m_input (fst (merge_edit e st)) ! i = m_input (fst st) ! i"
    using ne Cons.prems(3) by (rule merge_edit_other_key)
  have len: "i < length (m_input (fst (merge_edit e st)))"
    using Cons.prems(2) by (simp add: merge_edit_length)
  have key: "nnc_key (m_input (fst (merge_edit e st)) ! i) = K"
    using same Cons.prems(3) by simp
  from Cons.IH [OF rest len key] same show ?case by simp
qed

text \<open>Edits with smaller keys keep the cursor before the entries of the key.\<close>

lemma merge_edit_cursor_below:
  assumes "nnc_key e < K" "cursor_below K st"
  shows "cursor_below K (merge_edit e st)"
proof -
  let ?inp = "m_input (fst st)"
  let ?cur = "snd st"
  from assms(2) have cur: "?cur \<le> length ?inp" and below: "\<forall>i < ?cur. nnc_key (?inp ! i) < K"
    by (simp_all add: cursor_below_def)
  from assms(1) have le: "nnc_key e \<le> K" by simp
  note sk = seek_props [OF cur below le]
  have all_below: "\<forall>i < length ?inp. nnc_key (?inp ! i) < K"
    if "?cur = length ?inp \<or> seek e ?inp ?cur = length ?inp"
    using that below sk(2) by auto
  have keys: "nnc_key (m_input (fst (merge_edit e st)) ! i) = nnc_key (?inp ! i)"
    if "i < length ?inp" for i
    using that by (rule merge_edit_key_nth)
  show ?thesis
  proof (cases "?cur = length ?inp")
    case True
    then have "snd (merge_edit e st) = length ?inp" by (simp add: merge_edit_at_end)
    with all_below True keys show ?thesis
      by (simp add: cursor_below_def merge_edit_length)
  next
    case False
    show ?thesis
    proof (cases "nnc_key (?inp ! ?cur) \<noteq> nnc_key e \<and> seek e ?inp ?cur = length ?inp")
      case True
      with False have "snd (merge_edit e st) = length ?inp" by (simp add: merge_edit_seek_end)
      with all_below True keys show ?thesis
        by (simp add: cursor_below_def merge_edit_length)
    next
      case run: False
      let ?sought = "seek e ?inp ?cur"
      let ?c = "fst (snd (scale_run e ?inp ?sought False))"
      from run have "nnc_key (?inp ! ?cur) = nnc_key e \<or> ?sought \<noteq> length ?inp" by blast
      with False have "snd (merge_edit e st) = ?c" by (simp add: merge_edit_run)
      moreover have "?c \<le> length ?inp"
        using scale_run_cursor [of ?sought e ?inp False] sk(1) by simp
      moreover have "nnc_key (?inp ! i) < K" if "i < ?c" for i
      proof (cases "i < ?sought")
        case True
        with sk(2) show ?thesis by simp
      next
        case False
        then have "?sought \<le> i" by simp
        from scale_run_inside [OF this that] assms(1) show ?thesis by simp
      qed
      ultimately show ?thesis
        using keys by (simp add: cursor_below_def merge_edit_length)
    qed
  qed
qed

lemma fold_merge_edit_cursor_below:
  "(\<forall>e \<in> set es. nnc_key e < K) \<Longrightarrow> cursor_below K st
   \<Longrightarrow> cursor_below K (fold merge_edit es st)"
  by (induction es arbitrary: st) (simp_all add: merge_edit_cursor_below)

text \<open>The edit of the key scales every entry of the key and is not overlaid.\<close>

lemma merge_edit_own_key:
  assumes srt: "sorted (map nnc_key (m_input (fst st)))"
    and cb: "cursor_below (nnc_key e) st"
    and ex: "j < length (m_input (fst st))" "nnc_key (m_input (fst st) ! j) = nnc_key e"
  shows "m_edit (fst (merge_edit e st)) = m_edit (fst st)"
    and "\<forall>i < length (m_input (fst st)). nnc_key (m_input (fst st) ! i) = nnc_key e
           \<longrightarrow> m_input (fst (merge_edit e st)) ! i
               = scaled (trans_v e) (m_input (fst st) ! i)"
proof -
  let ?inp = "m_input (fst st)"
  let ?cur = "snd st"
  let ?K = "nnc_key e"
  let ?sought = "seek e ?inp ?cur"
  let ?r = "scale_run e ?inp ?sought False"
  let ?c = "fst (snd ?r)"
  from cb have cur: "?cur \<le> length ?inp" and below: "\<forall>i < ?cur. nnc_key (?inp ! i) < ?K"
    by (simp_all add: cursor_below_def)
  note sk = seek_props [OF cur below order_refl]
  have mono: "nnc_key (?inp ! a) \<le> nnc_key (?inp ! b)" if "a \<le> b" "b < length ?inp" for a b
    using srt that by (simp add: sorted_iff_nth_mono)
  have after: "m \<le> i" if "\<forall>a < m. nnc_key (?inp ! a) < ?K" "nnc_key (?inp ! i) = ?K" for m i
  proof (rule ccontr)
    assume "\<not> m \<le> i"
    then have "i < m" by simp
    with that show False by auto
  qed
  have cur_le_j: "?cur \<le> j" using below ex(2) by (rule after)
  with ex(1) have not_end: "?cur \<noteq> length ?inp" by simp
  have sought_le_j: "?sought \<le> j" using sk(2) ex(2) by (rule after)
  with ex(1) have sought_lt: "?sought < length ?inp" by simp
  have at_sought: "nnc_key (?inp ! ?sought) = ?K"
  proof (cases "nnc_key (?inp ! ?cur) \<noteq> ?K")
    case False
    then show ?thesis by (simp add: seek_def)
  next
    case True
    then have s: "?sought = length (takeWhile (\<lambda>d. nnc_key d < ?K) ?inp)" by (simp add: seek_def)
    with sought_lt have "\<not> nnc_key (?inp ! ?sought) < ?K"
      using nth_length_takeWhile [of "\<lambda>d. nnc_key d < ?K" ?inp] by simp
    moreover have "nnc_key (?inp ! ?sought) \<le> ?K"
      using mono [OF sought_le_j ex(1)] ex(2) by simp
    ultimately show ?thesis by simp
  qed
  have me: "merge_edit e st =
     (if \<not> snd (snd ?r) then add_edit e ((fst st)\<lparr>m_input := fst ?r\<rparr>)
      else (fst st)\<lparr>m_input := fst ?r\<rparr>, ?c)"
    using not_end sought_lt by (intro merge_edit_run) simp_all
  have moved: "?sought < ?c"
  proof (rule ccontr)
    assume "\<not> ?sought < ?c"
    with scale_run_cursor [of ?sought e ?inp False] have "?c = ?sought" by simp
    with sought_lt scale_run_end [of e ?inp ?sought False] at_sought show False by simp
  qed
  then have processed: "snd (snd ?r)" by (simp add: scale_run_processed)
  with me have res: "fst (merge_edit e st) = (fst st)\<lparr>m_input := fst ?r\<rparr>" by simp
  then show "m_edit (fst (merge_edit e st)) = m_edit (fst st)" by simp
  show "\<forall>i < length ?inp. nnc_key (?inp ! i) = ?K
           \<longrightarrow> m_input (fst (merge_edit e st)) ! i = scaled (trans_v e) (?inp ! i)"
  proof (intro allI impI)
    fix i assume i: "i < length ?inp" and k: "nnc_key (?inp ! i) = ?K"
    have lo: "?sought \<le> i" using sk(2) k by (rule after)
    have hi: "i < ?c"
    proof (rule ccontr)
      assume "\<not> i < ?c"
      then have ci: "?c \<le> i" by simp
      with i have c_lt: "?c < length ?inp" by simp
      have "nnc_key (?inp ! ?sought) \<le> nnc_key (?inp ! ?c)"
        using moved c_lt by (intro mono) simp_all
      moreover have "nnc_key (?inp ! ?c) \<le> nnc_key (?inp ! i)"
        using ci i by (rule mono)
      ultimately have "nnc_key (?inp ! ?c) = ?K" using at_sought k by simp
      with scale_run_end [OF c_lt] show False by simp
    qed
    from scale_run_inside [OF lo hi] res
    show "m_input (fst (merge_edit e st)) ! i = scaled (trans_v e) (?inp ! i)" by simp
  qed
qed

text \<open>A list that is sorted by key falls into the keys below, at and above a key.\<close>

lemma sorted_split_by_key:
  "sorted (map f xs)
   \<Longrightarrow> xs = filter (\<lambda>x. f x < k) xs @ filter (\<lambda>x. f x = k) xs @ filter (\<lambda>x. k < f x) xs"
proof (induction xs)
  case Nil
  show ?case by simp
next
  case (Cons x xs)
  from Cons.prems have srt: "sorted (map f xs)" and ge: "\<forall>y \<in> set xs. f x \<le> f y" by simp_all
  note ih = Cons.IH [OF srt]
  consider (lt) "f x < k" | (eq) "f x = k" | (gt) "k < f x" by (rule linorder_cases)
  then show ?case
  proof cases
    case lt
    then have "f x \<noteq> k" "\<not> k < f x" by auto
    with lt ih show ?thesis by simp
  next
    case eq
    with ge have "filter (\<lambda>x. f x < k) xs = []" by (auto simp: filter_empty_conv)
    moreover from eq have "\<not> f x < k" "\<not> k < f x" by auto
    ultimately show ?thesis using eq ih by simp
  next
    case gt
    with ge have "\<forall>y \<in> set xs. k < f y" by auto
    then have "filter (\<lambda>x. f x < k) xs = []" "filter (\<lambda>x. f x = k) xs = []"
        "filter (\<lambda>x. k < f x) xs = xs"
      by (auto simp: filter_empty_conv filter_id_conv)
    moreover from gt have "\<not> f x < k" "f x \<noteq> k" by auto
    ultimately show ?thesis using gt by simp
  qed
qed

lemma filter_pointwise:
  "length ys = length xs
   \<Longrightarrow> (\<forall>i < length xs. nnc_key (ys ! i) = nnc_key (xs ! i))
   \<Longrightarrow> (\<forall>i < length xs. nnc_key (xs ! i) = K \<longrightarrow> ys ! i = f (xs ! i))
   \<Longrightarrow> filter (\<lambda>d. nnc_key d = K) ys = map f (filter (\<lambda>d. nnc_key d = K) xs)"
proof (induction xs arbitrary: ys)
  case Nil
  then show ?case by simp
next
  case (Cons x xs)
  from Cons.prems(1) obtain y ys' where ys: "ys = y # ys'" by (cases ys) auto
  have l: "length ys' = length xs" using Cons.prems(1) ys by simp
  have k: "\<forall>i < length xs. nnc_key (ys' ! i) = nnc_key (xs ! i)"
    using Cons.prems(2) ys by auto
  have v: "\<forall>i < length xs. nnc_key (xs ! i) = K \<longrightarrow> ys' ! i = f (xs ! i)"
    using Cons.prems(3) ys by auto
  have k0: "nnc_key y = nnc_key x" using Cons.prems(2) ys by auto
  have v0: "nnc_key x = K \<longrightarrow> y = f x" using Cons.prems(3) ys by auto
  from Cons.IH [OF l k v] k0 v0 show ?case by (simp add: ys)
qed

lemma load_edit_single_edit:
  assumes one: "entries_for K (surviving_edits g deck) = [e]"
    and srt: "sorted (map nnc_key (m_input s))"
  shows "entries_for K (m_input (load_edit g deck s))
           = map (scaled (trans_v e)) (entries_for K (m_input s))"
    and "entries_for K (m_input s) \<noteq> [] \<Longrightarrow> K \<notin> nnc_key ` set (m_edit s)
         \<Longrightarrow> K \<notin> nnc_key ` set (m_edit (load_edit g deck s))"
proof -
  let ?inp = "m_input s"
  let ?s' = "snd (fold (load_edit_keyword g) (EDITNNC_keywords deck) ([], s))"
  let ?es = "std_sort (surviving_edits g deck)"
  let ?es1 = "filter (\<lambda>d. nnc_key d < K) ?es"
  let ?es2 = "filter (\<lambda>d. K < nnc_key d) ?es"
  let ?st0 = "(?s', 0 :: nat)"
  let ?st1 = "fold merge_edit ?es1 ?st0"
  let ?st2 = "merge_edit e ?st1"
  let ?st3 = "fold merge_edit ?es2 ?st2"
  have s': "m_input ?s' = ?inp" "m_edit ?s' = m_edit s"
    using fold_load_edit_keyword_snd [of g "EDITNNC_keywords deck" "([], s)"] by simp_all
  have "filter (\<lambda>d. nnc_key d = K) ?es = filter (\<lambda>d. nnc_key d = K) (surviving_edits g deck)"
    unfolding std_sort_def by (rule sort_key_stable)
  with one have mid: "filter (\<lambda>d. nnc_key d = K) ?es = [e]" by (simp add: entries_for_def)
  then have "e \<in> set (filter (\<lambda>d. nnc_key d = K) ?es)" by simp
  then have ke: "nnc_key e = K" by simp
  have "sorted (map nnc_key ?es)" by (simp add: std_sort_def)
  from sorted_split_by_key [OF this, of K] mid have split: "?es = ?es1 @ [e] @ ?es2" by simp
  have "load_edit g deck s = fst (fold merge_edit ?es ?st0)" by (rule load_edit_eq)
  also have "fold merge_edit ?es ?st0 = fold merge_edit (?es1 @ [e] @ ?es2) ?st0"
    using split by simp
  also have "\<dots> = ?st3" by simp
  finally have le: "load_edit g deck s = fst ?st3" .
  have es1_lt: "\<forall>d \<in> set ?es1. nnc_key d < K" by simp
  then have es1_ne: "\<forall>d \<in> set ?es1. nnc_key d \<noteq> K" by auto
  have es2_ne: "\<forall>d \<in> set ?es2. nnc_key d \<noteq> K" by auto
  have k1: "map nnc_key (m_input (fst ?st1)) = map nnc_key ?inp"
    using fold_merge_edit_frame(1) [of ?es1 ?st0] by (simp add: s')
  have k2: "map nnc_key (m_input (fst ?st2)) = map nnc_key ?inp"
    using merge_edit_frame(1) [of e ?st1] k1 by simp
  have k3: "map nnc_key (m_input (fst ?st3)) = map nnc_key ?inp"
    using fold_merge_edit_frame(1) [of ?es2 ?st2] k2 by simp
  have l1: "length (m_input (fst ?st1)) = length ?inp" using k1 by (metis length_map)
  have l2: "length (m_input (fst ?st2)) = length ?inp" using k2 by (metis length_map)
  have l3: "length (m_input (fst ?st3)) = length ?inp" using k3 by (metis length_map)
  have "cursor_below K ?st0" by (simp add: cursor_below_def)
  with es1_lt have cb: "cursor_below (nnc_key e) ?st1"
    unfolding ke by (rule fold_merge_edit_cursor_below)
  have srt1: "sorted (map nnc_key (m_input (fst ?st1)))" using srt k1 by simp
  have point: "m_input (fst ?st3) ! i = scaled (trans_v e) (?inp ! i)"
    if i: "i < length ?inp" and k: "nnc_key (?inp ! i) = K" for i
  proof -
    have a: "m_input (fst ?st1) ! i = ?inp ! i"
      using fold_merge_edit_other_keys [OF es1_ne, of i ?st0] i k by (simp add: s')
    have i1: "i < length (m_input (fst ?st1))" using i l1 by simp
    have key1: "nnc_key (m_input (fst ?st1) ! i) = nnc_key e" using a k ke by simp
    have b: "m_input (fst ?st2) ! i = scaled (trans_v e) (m_input (fst ?st1) ! i)"
      using merge_edit_own_key(2) [OF srt1 cb i1 key1] i1 key1 by simp
    have i2: "i < length (m_input (fst ?st2))" using i l2 by simp
    have key2: "nnc_key (m_input (fst ?st2) ! i) = K"
      using map_key_nth [OF k2 i] k by simp
    have c: "m_input (fst ?st3) ! i = m_input (fst ?st2) ! i"
      using es2_ne i2 key2 by (rule fold_merge_edit_other_keys)
    from a b c show ?thesis by simp
  qed
  have "filter (\<lambda>d. nnc_key d = K) (m_input (fst ?st3))
          = map (scaled (trans_v e)) (filter (\<lambda>d. nnc_key d = K) ?inp)"
  proof (rule filter_pointwise [OF l3])
    show "\<forall>i < length ?inp. nnc_key (m_input (fst ?st3) ! i) = nnc_key (?inp ! i)"
      using map_key_nth [OF k3] by simp
    show "\<forall>i < length ?inp. nnc_key (?inp ! i) = K
            \<longrightarrow> m_input (fst ?st3) ! i = scaled (trans_v e) (?inp ! i)"
      using point by simp
  qed
  then show "entries_for K (m_input (load_edit g deck s))
           = map (scaled (trans_v e)) (entries_for K (m_input s))"
    by (simp add: entries_for_def le)
  show "K \<notin> nnc_key ` set (m_edit (load_edit g deck s))"
    if ne: "entries_for K (m_input s) \<noteq> []" and nk: "K \<notin> nnc_key ` set (m_edit s)"
  proof -
    from ne obtain d where "d \<in> set ?inp" "nnc_key d = K"
      by (auto simp: entries_for_def filter_empty_conv)
    then obtain j where j: "j < length ?inp" "nnc_key (?inp ! j) = K"
      by (auto simp: in_set_conv_nth)
    have j1: "j < length (m_input (fst ?st1))" using j(1) l1 by simp
    have key1: "nnc_key (m_input (fst ?st1) ! j) = nnc_key e"
      using map_key_nth [OF k1 j(1)] j(2) ke by simp
    have e2: "m_edit (fst ?st2) = m_edit (fst ?st1)"
      using srt1 cb j1 key1 by (rule merge_edit_own_key(1))
    have "nnc_key ` set (m_edit (fst ?st1)) \<subseteq> nnc_key ` set (m_edit s) \<union> nnc_key ` set ?es1"
      using fold_merge_edit_key_subset [of ?es1 ?st0] by (simp add: s')
    with nk es1_ne have n1: "K \<notin> nnc_key ` set (m_edit (fst ?st1))" by auto
    have "nnc_key ` set (m_edit (fst ?st3))
            \<subseteq> nnc_key ` set (m_edit (fst ?st2)) \<union> nnc_key ` set ?es2"
      by (rule fold_merge_edit_key_subset)
    with n1 e2 es2_ne have "K \<notin> nnc_key ` set (m_edit (fst ?st3))" by auto
    then show ?thesis by (simp add: le)
  qed
qed

text \<open>
  C5: when exactly one of the surviving multiplicative edits has the key \<open>K\<close>, the
  entries of \<open>m_input\<close> with this key are, after the construction, the entries that
  \<open>m_input\<close> had for it at merge time, each with its value multiplied by the multiplier
  of the edit: both of them when there are two, and all of them whatever their number.
  When there is at least one, \<open>m_edit\<close> has no entry for \<open>K\<close>.
\<close>

theorem single_edit_scales_run:
  "entries_for K (surviving_edits grid deck) = [e] \<Longrightarrow>
     entries_for K (m_input (NNC_ctor grid deck))
       = map (scaled (trans_v e)) (entries_for K (m_input (load_input grid deck NNC_default)))
     \<and> (entries_for K (m_input (load_input grid deck NNC_default)) \<noteq> []
          \<longrightarrow> entries_for K (m_edit (NNC_ctor grid deck)) = [])"
proof (intro conjI impI)
  assume one: "entries_for K (surviving_edits grid deck) = [e]"
  let ?s1 = "load_input grid deck NNC_default"
  let ?s2 = "load_edit grid deck ?s1"
  have srt: "sorted (map nnc_key (m_input ?s1))" by (rule load_input_props(3))
  show "entries_for K (m_input (NNC_ctor grid deck))
       = map (scaled (trans_v e)) (entries_for K (m_input ?s1))"
    using load_edit_single_edit(1) [OF one srt]
    by (simp add: NNC_ctor_def load_editr_input)
  show "entries_for K (m_edit (NNC_ctor grid deck)) = []"
    if ne: "entries_for K (m_input ?s1) \<noteq> []"
  proof -
    have "m_edit ?s1 = []" by (simp add: load_input_props NNC_default_def)
    then have "K \<notin> nnc_key ` set (m_edit ?s1)" by simp
    with load_edit_single_edit(2) [OF one srt ne]
    have "K \<notin> nnc_key ` set (m_edit ?s2)" by simp
    moreover have "set (m_edit (NNC_ctor grid deck)) \<subseteq> set (m_edit ?s2)"
      unfolding NNC_ctor_def by (rule load_editr_edit_subset)
    ultimately have "K \<notin> nnc_key ` set (m_edit (NNC_ctor grid deck))" by blast
    then show ?thesis by (auto simp: entries_for_def filter_empty_conv)
  qed
qed

theorem single_edit_scales_run_witness:
  "entries_for (0, 8) (surviving_edits grid331 deck_mixed)
     = [\<lparr>cell1 = 0, cell2 = 8, trans_v = 2\<rparr>]
   \<and> entries_for (0, 8) (m_input (load_input grid331 deck_mixed NNC_default))
       = [\<lparr>cell1 = 0, cell2 = 8, trans_v = 5\<rparr>, \<lparr>cell1 = 0, cell2 = 8, trans_v = 4\<rparr>]
   \<and> entries_for (0, 8) (m_input (NNC_ctor grid331 deck_mixed))
       = [\<lparr>cell1 = 0, cell2 = 8, trans_v = 10\<rparr>, \<lparr>cell1 = 0, cell2 = 8, trans_v = 8\<rparr>]
   \<and> entries_for (0, 8) (m_edit (NNC_ctor grid331 deck_mixed)) = []"
proof -
  have one: "entries_for (0, 8) (surviving_edits grid331 deck_mixed)
     = [\<lparr>cell1 = 0, cell2 = 8, trans_v = 2\<rparr>]"
    by code_simp
  have two: "entries_for (0, 8) (m_input (load_input grid331 deck_mixed NNC_default))
       = [\<lparr>cell1 = 0, cell2 = 8, trans_v = 5\<rparr>, \<lparr>cell1 = 0, cell2 = 8, trans_v = 4\<rparr>]"
    by code_simp
  from single_edit_scales_run [OF one] one two show ?thesis by (simp add: scaled_def)
qed

end
